theory Spec2Isabelle
  imports Main "HOL-Library.List_Lexorder" "HOL-Library.AList"
begin

section \<open>Python strings\<close>

text \<open>
  A Python \<^verbatim>\<open>str\<close> is a sequence of Unicode code points. A code point is a natural
  number, a string a list of them; \<open>str\<close> turns an ASCII literal into such a list.
  Python compares strings lexicographically by code point, which is the order of
  \<open>HOL-Library.List_Lexorder\<close> on \<open>nat list\<close>.
\<close>

type_synonym pychar = nat

type_synonym pystr = "nat list"

definition str :: "string \<Rightarrow> pystr" where
  "str s = map of_char s"

abbreviation NL :: pychar where
  "NL \<equiv> 10"

text \<open>
  \<^verbatim>\<open>str.isspace\<close> of one character, which is also what \<^verbatim>\<open>\s\<close> matches in a \<^verbatim>\<open>str\<close>
  pattern and what \<^verbatim>\<open>str.strip()\<close> removes.
\<close>

definition isspace :: "pychar \<Rightarrow> bool" where
  "isspace c \<longleftrightarrow>
     (9 \<le> c \<and> c \<le> 13) \<or> (28 \<le> c \<and> c \<le> 32) \<or> c = 133 \<or> c = 160 \<or> c = 5760 \<or>
     (8192 \<le> c \<and> c \<le> 8202) \<or> c = 8232 \<or> c = 8233 \<or> c = 8239 \<or> c = 8287 \<or> c = 12288"

definition lstrip :: "pystr \<Rightarrow> pystr" where
  "lstrip s = dropWhile isspace s"

definition rstrip :: "pystr \<Rightarrow> pystr" where
  "rstrip s = rev (dropWhile isspace (rev s))"

definition strip :: "pystr \<Rightarrow> pystr" where
  "strip s = rstrip (lstrip s)"

text \<open>
  A literal of a pattern, matched at the start of the text: the rest of the text after it,
  or \<open>None\<close>.
\<close>

fun lit :: "pystr \<Rightarrow> pystr \<Rightarrow> pystr option" where
  "lit [] s = Some s"
| "lit (p # ps) [] = None"
| "lit (p # ps) (c # cs) = (if p = c then lit ps cs else None)"

lemma lit_length: "lit p s = Some r \<Longrightarrow> length s = length p + length r"
  by (induction p s rule: lit.induct) (auto split: if_splits)

text \<open>
  \<^verbatim>\<open>s.split(sep)\<close> and \<^verbatim>\<open>re.split\<close> with a literal pattern: the pieces between the
  occurrences of the separator, found from left to right, never overlapping. The
  separator is \<open>d # ds\<close>, so it is never empty (every separator of the program is a
  constant: \<^verbatim>\<open>"\n## "\<close>, \<^verbatim>\<open>"\n"\<close> and \<^verbatim>\<open>","\<close>). \<open>acc\<close> is the piece being read.
\<close>

function split_on :: "pychar \<Rightarrow> pystr \<Rightarrow> pystr \<Rightarrow> pystr \<Rightarrow> pystr list" where
  "split_on d ds acc [] = [acc]"
| "split_on d ds acc (c # cs) =
     (case lit (d # ds) (c # cs) of
        Some r \<Rightarrow> acc # split_on d ds [] r
      | None \<Rightarrow> split_on d ds (acc @ [c]) cs)"
  by pat_completeness auto
termination
  by (relation "measure (\<lambda>(d, ds, acc, s). length s)") (auto dest: lit_length split: if_splits)

text \<open>\<^verbatim>\<open>re.split(r"\n## ", content)\<close>\<close>

definition split_sections :: "pystr \<Rightarrow> pystr list" where
  "split_sections content = split_on NL (str ''## '') [] content"

text \<open>\<^verbatim>\<open>s.split("\n")\<close> and \<^verbatim>\<open>s.split(",")\<close>\<close>

definition split_lines :: "pystr \<Rightarrow> pystr list" where
  "split_lines s = split_on NL [] [] s"

definition split_commas :: "pystr \<Rightarrow> pystr list" where
  "split_commas s = split_on 44 [] [] s"

section \<open>The regular expressions\<close>

text \<open>
  \<^verbatim>\<open>re.match\<close> tries the pattern at the start of the line, with backtracking. Each
  quantifier is a function that takes the rest of the pattern as a continuation \<open>k\<close>.

  \<^verbatim>\<open>(.+?)\<close>: one or more characters other than a newline, as few as possible: after
  each character the rest of the pattern is tried first, and one more character is taken
  only when it fails. \<open>acc\<close> is the group read so far.
\<close>

fun dot_plus_lazy :: "(pystr \<Rightarrow> pystr \<Rightarrow> 'a option) \<Rightarrow> pystr \<Rightarrow> pystr \<Rightarrow> 'a option" where
  "dot_plus_lazy k acc [] = None"
| "dot_plus_lazy k acc (c # cs) =
     (if c = NL then None
      else (case k (acc @ [c]) cs of
              Some r \<Rightarrow> Some r
            | None \<Rightarrow> dot_plus_lazy k (acc @ [c]) cs))"

text \<open>
  \<^verbatim>\<open>\s*\<close>: as many whitespace characters as possible, giving one back at a time when
  the rest of the pattern fails.
\<close>

fun space_star :: "(pystr \<Rightarrow> 'a option) \<Rightarrow> pystr \<Rightarrow> 'a option" where
  "space_star k [] = k []"
| "space_star k (c # cs) =
     (if isspace c
      then (case space_star k cs of Some r \<Rightarrow> Some r | None \<Rightarrow> k (c # cs))
      else k (c # cs))"

text \<open>
  \<^verbatim>\<open>(.+)\<close> at the end of a pattern: every character up to the next newline, at least
  one. The result is the group.
\<close>

definition dot_plus :: "pystr \<Rightarrow> pystr option" where
  "dot_plus s = (let g = takeWhile (\<lambda>c. c \<noteq> NL) s in if g = [] then None else Some g)"

text \<open>
  \<^verbatim>\<open>re.match(r"- \*\*\[(.+?)\]\((.+?)\)\*\*", line)\<close>: the two groups.
\<close>

definition title_match :: "pystr \<Rightarrow> (pystr \<times> pystr) option" where
  "title_match line =
     (case lit (str ''- **['') line of
        None \<Rightarrow> None
      | Some r1 \<Rightarrow>
          dot_plus_lazy
            (\<lambda>t r2. case lit (str '']('') r2 of
                None \<Rightarrow> None
              | Some r3 \<Rightarrow>
                  dot_plus_lazy
                    (\<lambda>u r4. case lit (str '')**'') r4 of
                        None \<Rightarrow> None
                      | Some r5 \<Rightarrow> Some (t, u))
                    [] r3)
            [] r1)"

text \<open>
  \<^verbatim>\<open>re.match(r"\s*- Methodology:\s*(.+)", line)\<close> and its two siblings differ in
  the literal only: the group.
\<close>

definition meta_match :: "pystr \<Rightarrow> pystr \<Rightarrow> pystr option" where
  "meta_match key line =
     space_star (\<lambda>r. case lit key r of None \<Rightarrow> None | Some r' \<Rightarrow> space_star dot_plus r') line"

definition meth_match :: "pystr \<Rightarrow> pystr option" where
  "meth_match = meta_match (str ''- Methodology:'')"

definition pub_match :: "pystr \<Rightarrow> pystr option" where
  "pub_match = meta_match (str ''- Published:'')"

definition sum_match :: "pystr \<Rightarrow> pystr option" where
  "sum_match = meta_match (str ''- Summary:'')"

section \<open>Scanning the document\<close>

text \<open>
  A paper is a dictionary with a fixed set of keys; \<open>pid\<close> is its key \<^verbatim>\<open>"id"\<close>. The key
  \<^verbatim>\<open>"is_review"\<close> is added by a later pass, so it is a field of the extended record
  \<open>tagged_paper\<close>.
\<close>

record paper =
  pid :: nat
  title :: pystr
  url :: pystr
  methodologies :: "pystr list"
  applications :: "pystr list"
  published :: pystr
  summary :: pystr

record tagged_paper = paper +
  is_review :: bool

text \<open>
  The exceptions of the modelled part of the program. \<^verbatim>\<open>seen_urls[url]\<close> is read only
  after \<^verbatim>\<open>url in seen_urls\<close>, so the one exception left is that of a list index out of
  range.
\<close>

datatype error = IndexError

text \<open>The variables \<^verbatim>\<open>papers\<close>, \<^verbatim>\<open>paper_id\<close> and \<^verbatim>\<open>seen_urls\<close> of \<^verbatim>\<open>parse_readme\<close>.\<close>

record pstate =
  papers :: "paper list"
  paper_id :: nat
  seen_urls :: "pystr \<rightharpoonup> nat"

definition init_state :: pstate where
  "init_state = \<lparr>papers = [], paper_id = 0, seen_urls = Map.empty\<rparr>"

text \<open>
  The block that commits the pending paper. The source has it twice, word for word: before
  a new title line replaces the pending paper, and after the lines of a section.
  \<^verbatim>\<open>papers[seen_urls[url]]\<close> raises IndexError out of range; the update of the
  applications goes through the alias \<^verbatim>\<open>existing\<close> into the list.
\<close>

definition finalize :: "pystr \<Rightarrow> paper \<Rightarrow> pstate \<Rightarrow> error + pstate" where
  "finalize category current_paper st =
     (case seen_urls st (url current_paper) of
        Some i \<Rightarrow>
          if i < length (papers st) then
            let existing = papers st ! i in
            if category \<in> set (applications existing) then Inr st
            else Inr (st\<lparr>papers :=
                   (papers st)[i := existing\<lparr>applications := applications existing @ [category]\<rparr>]\<rparr>)
          else Inl IndexError
      | None \<Rightarrow>
          Inr (st\<lparr>seen_urls := (seen_urls st)(url current_paper \<mapsto> length (papers st)),
                  papers := papers st @ [current_paper],
                  paper_id := paper_id st + 1\<rparr>))"

text \<open>\<^verbatim>\<open>if current_paper: ...\<close> around that block.\<close>

definition flush :: "pystr \<Rightarrow> paper option \<Rightarrow> pstate \<Rightarrow> error + pstate" where
  "flush category current_paper st =
     (case current_paper of None \<Rightarrow> Inr st | Some p \<Rightarrow> finalize category p st)"

text \<open>The loop over the lines of one section, \<^verbatim>\<open>for line in lines[1:]\<close>.\<close>

fun scan_lines ::
  "pystr \<Rightarrow> pystr list \<Rightarrow> paper option \<Rightarrow> pstate \<Rightarrow> error + (paper option \<times> pstate)" where
  "scan_lines category [] current_paper st = Inr (current_paper, st)"
| "scan_lines category (line # rest) current_paper st =
     (case title_match line of
        Some (t, u) \<Rightarrow>
          (case flush category current_paper st of
             Inl e \<Rightarrow> Inl e
           | Inr st' \<Rightarrow>
               scan_lines category rest
                 (Some \<lparr>pid = paper_id st', title = t, url = u, methodologies = [],
                        applications = [category], published = [], summary = []\<rparr>) st')
      | None \<Rightarrow>
          (case current_paper of
             None \<Rightarrow> scan_lines category rest None st
           | Some p \<Rightarrow>
               (case meth_match line of
                  Some g \<Rightarrow>
                    scan_lines category rest
                      (Some (p\<lparr>methodologies := map strip (split_commas g)\<rparr>)) st
                | None \<Rightarrow>
                    (case pub_match line of
                       Some g \<Rightarrow> scan_lines category rest (Some (p\<lparr>published := strip g\<rparr>)) st
                     | None \<Rightarrow>
                         (case sum_match line of
                            Some g \<Rightarrow>
                              scan_lines category rest (Some (p\<lparr>summary := strip g\<rparr>)) st
                          | None \<Rightarrow> scan_lines category rest (Some p) st)))))"

text \<open>
  One turn of \<^verbatim>\<open>for section in sections[1:]\<close>. \<^verbatim>\<open>lines[0]\<close> raises IndexError on an
  empty list.
\<close>

definition scan_section :: "pystr \<Rightarrow> pstate \<Rightarrow> error + pstate" where
  "scan_section section st =
     (case split_lines (strip section) of
        [] \<Rightarrow> Inl IndexError
      | l0 # ls \<Rightarrow>
          let category = strip l0 in
          if category = str ''Table of Contents'' then Inr st
          else (case scan_lines category ls None st of
                  Inl e \<Rightarrow> Inl e
                | Inr (current_paper, st') \<Rightarrow> flush category current_paper st'))"

fun scan_sections :: "pystr list \<Rightarrow> pstate \<Rightarrow> error + pstate" where
  "scan_sections [] st = Inr st"
| "scan_sections (section # rest) st =
     (case scan_section section st of Inl e \<Rightarrow> Inl e | Inr st' \<Rightarrow> scan_sections rest st')"

text \<open>The first part of \<^verbatim>\<open>parse_readme\<close>: the papers after the loop over the sections.\<close>

definition scan_document :: "pystr \<Rightarrow> error + paper list" where
  "scan_document content =
     (case scan_sections (tl (split_sections content)) init_state of
        Inl e \<Rightarrow> Inl e
      | Inr st \<Rightarrow> Inr (papers st))"

section \<open>Normalising, tagging and aggregating\<close>

text \<open>
  \<^verbatim>\<open>list(set(xs))\<close> lists the distinct elements of \<open>xs\<close> in the iteration order of
  the set, which for strings depends on the hash seed of the run. That order is a
  parameter of the model, a function from the elements as they are inserted to the list
  as it is iterated; \<open>valid_order\<close> is all that Python promises of it.
\<close>

type_synonym set_order = "pystr list \<Rightarrow> pystr list"

definition valid_order :: "set_order \<Rightarrow> bool" where
  "valid_order enum \<longleftrightarrow> (\<forall>xs. distinct (enum xs) \<and> set (enum xs) = set xs)"

text \<open>The dictionary \<^verbatim>\<open>meth_remap\<close>; its values are a string or \<^verbatim>\<open>None\<close>.\<close>

definition meth_remap :: "pystr \<rightharpoonup> pystr option" where
  "meth_remap =
     [str ''Machine Learning'' \<mapsto> Some (str ''Machine learning''),
      str ''Artificial Intelligence'' \<mapsto> None]"

text \<open>The loop that fills \<^verbatim>\<open>cleaned\<close>.\<close>

fun clean :: "pystr list \<Rightarrow> pystr list" where
  "clean [] = []"
| "clean (m # ms) =
     (case meth_remap m of
        Some (Some r) \<Rightarrow> r # clean ms
      | Some None \<Rightarrow> clean ms
      | None \<Rightarrow> m # clean ms)"

definition normalize_paper :: "set_order \<Rightarrow> paper \<Rightarrow> paper" where
  "normalize_paper enum p = p\<lparr>methodologies := enum (clean (methodologies p))\<rparr>"

abbreviation REVIEWS :: pystr where
  "REVIEWS \<equiv> str ''Reviews / Tutorials / Perspectives''"

text \<open>The flag is read from the applications before the label is filtered out of them.\<close>

definition tag_review :: "paper \<Rightarrow> tagged_paper" where
  "tag_review p =
     \<lparr>pid = pid p, title = title p, url = url p, methodologies = methodologies p,
      applications = filter (\<lambda>a. a \<noteq> REVIEWS) (applications p),
      published = published p, summary = summary p,
      is_review = (REVIEWS \<in> set (applications p))\<rparr>"

text \<open>
  The returned dictionary. A dictionary that is serialised keeps its keys in the order of
  insertion, so the matrix is an association list, filled with \<open>AList.update\<close>: a new key
  goes to the end and a key that is there keeps its place, as in Python.
\<close>

record dataset =
  d_papers :: "tagged_paper list"
  d_applications :: "pystr list"
  d_methodologies :: "pystr list"
  d_matrix :: "(pystr \<times> (pystr \<times> nat) list) list"
  d_lastUpdated :: pystr

definition count_papers :: "tagged_paper list \<Rightarrow> pystr \<Rightarrow> pystr \<Rightarrow> nat" where
  "count_papers ps app meth =
     length (filter (\<lambda>p. app \<in> set (applications p) \<and> meth \<in> set (methodologies p)) ps)"

definition matrix_row :: "tagged_paper list \<Rightarrow> pystr list \<Rightarrow> pystr \<Rightarrow> (pystr \<times> nat) list" where
  "matrix_row ps all_meths app =
     foldl (\<lambda>row meth. AList.update meth (count_papers ps app meth) row) [] all_meths"

definition build_matrix ::
  "tagged_paper list \<Rightarrow> pystr list \<Rightarrow> pystr list \<Rightarrow> (pystr \<times> (pystr \<times> nat) list) list" where
  "build_matrix ps all_apps all_meths =
     foldl (\<lambda>matrix app. AList.update app (matrix_row ps all_meths app) matrix) [] all_apps"

text \<open>
  The part of \<^verbatim>\<open>parse_readme\<close> from \<^verbatim>\<open>all_apps\<close> on. \<open>today\<close> is
  \<^verbatim>\<open>datetime.now().strftime("%Y-%m-%d")\<close>.
\<close>

definition aggregate :: "set_order \<Rightarrow> pystr \<Rightarrow> tagged_paper list \<Rightarrow> dataset" where
  "aggregate enum today ps =
     (let all_apps = sort (enum (concat (map applications ps)));
          all_meths = sort (enum (filter (\<lambda>m. m \<noteq> []) (concat (map methodologies ps))))
      in \<lparr>d_papers = ps, d_applications = all_apps, d_methodologies = all_meths,
          d_matrix = build_matrix ps all_apps all_meths, d_lastUpdated = today\<rparr>)"

text \<open>
  \<^verbatim>\<open>parse_readme\<close>, from the text of the file on: \<open>content\<close> is what \<^verbatim>\<open>f.read()\<close>
  returned.
\<close>

definition parse_readme :: "set_order \<Rightarrow> pystr \<Rightarrow> pystr \<Rightarrow> error + dataset" where
  "parse_readme enum today content =
     (case scan_document content of
        Inl e \<Rightarrow> Inl e
      | Inr raw \<Rightarrow> Inr (aggregate enum today (map tag_review (map (normalize_paper enum) raw))))"

section \<open>Rendering\<close>

text \<open>
  \<^verbatim>\<open>json.dumps(data, separators=(",", ":"))\<close> on the returned dictionary. With the
  default \<^verbatim>\<open>ensure_ascii\<close> a string is written between double quotes, with the quote and
  the backslash escaped by a backslash, the control characters that have a short escape
  written with it, any other character outside the printable ASCII range written as
  \<^verbatim>\<open>\uXXXX\<close> (four lower-case hexadecimal digits), and a character beyond the basic plane
  as a surrogate pair of two such escapes.
\<close>

definition hex_digit :: "nat \<Rightarrow> pychar" where
  "hex_digit n = (if n < 10 then 48 + n else 87 + n)"

definition hex4 :: "nat \<Rightarrow> pystr" where
  "hex4 n = [hex_digit (n div 4096 mod 16), hex_digit (n div 256 mod 16),
             hex_digit (n div 16 mod 16), hex_digit (n mod 16)]"

definition json_char :: "pychar \<Rightarrow> pystr" where
  "json_char c =
     (if c = 34 then [92, 34]
      else if c = 92 then [92, 92]
      else if c = 10 then [92, 110]
      else if c = 13 then [92, 114]
      else if c = 9 then [92, 116]
      else if c = 8 then [92, 98]
      else if c = 12 then [92, 102]
      else if 32 \<le> c \<and> c \<le> 126 then [c]
      else if c < 65536 then [92, 117] @ hex4 c
      else [92, 117] @ hex4 (55296 + (c - 65536) div 1024 mod 1024) @
           [92, 117] @ hex4 (56320 + (c - 65536) mod 1024))"

definition json_str :: "pystr \<Rightarrow> pystr" where
  "json_str s = [34] @ concat (map json_char s) @ [34]"

text \<open>An integer that is not negative, in decimal.\<close>

fun json_nat :: "nat \<Rightarrow> pystr" where
  "json_nat n = (if n < 10 then [48 + n] else json_nat (n div 10) @ [48 + n mod 10])"

declare json_nat.simps [simp del]

definition json_bool :: "bool \<Rightarrow> pystr" where
  "json_bool b = (if b then str ''true'' else str ''false'')"

fun join :: "pystr \<Rightarrow> pystr list \<Rightarrow> pystr" where
  "join sep [] = []"
| "join sep [x] = x"
| "join sep (x # y # ys) = x @ sep @ join sep (y # ys)"

definition json_list :: "pystr list \<Rightarrow> pystr" where
  "json_list items = [91] @ join [44] items @ [93]"

text \<open>A dictionary: the keys with their serialised values, in the order of insertion.\<close>

definition json_dict :: "(pystr \<times> pystr) list \<Rightarrow> pystr" where
  "json_dict kvs = [123] @ join [44] (map (\<lambda>(k, v). json_str k @ [58] @ v) kvs) @ [125]"

definition json_paper :: "tagged_paper \<Rightarrow> pystr" where
  "json_paper p =
     json_dict
       [(str ''id'', json_nat (pid p)),
        (str ''title'', json_str (title p)),
        (str ''url'', json_str (url p)),
        (str ''methodologies'', json_list (map json_str (methodologies p))),
        (str ''applications'', json_list (map json_str (applications p))),
        (str ''published'', json_str (published p)),
        (str ''summary'', json_str (summary p)),
        (str ''is_review'', json_bool (is_review p))]"

definition json_dumps :: "dataset \<Rightarrow> pystr" where
  "json_dumps data =
     json_dict
       [(str ''papers'', json_list (map json_paper (d_papers data))),
        (str ''applications'', json_list (map json_str (d_applications data))),
        (str ''methodologies'', json_list (map json_str (d_methodologies data))),
        (str ''matrix'',
           json_dict (map (\<lambda>(app, row). (app, json_dict (map (\<lambda>(meth, n). (meth, json_nat n)) row)))
                        (d_matrix data))),
        (str ''lastUpdated'', json_str (d_lastUpdated data))]"

text \<open>
  \<^verbatim>\<open>generate_html\<close>: the serialised data between the two string literals of the
  template, which are parameters here (\<open>tpl_head\<close> is the literal before
  \<^verbatim>\<open>compact_json\<close>, \<open>tpl_tail\<close> the one after it).
\<close>

definition generate_html :: "pystr \<Rightarrow> pystr \<Rightarrow> dataset \<Rightarrow> pystr" where
  "generate_html tpl_head tpl_tail data = tpl_head @ json_dumps data @ tpl_tail"

text \<open>\<^verbatim>\<open>main\<close>, from the text of the input file to the text of the output file.\<close>

definition main :: "set_order \<Rightarrow> pystr \<Rightarrow> pystr \<Rightarrow> pystr \<Rightarrow> pystr \<Rightarrow> error + pystr" where
  "main enum today tpl_head tpl_tail content =
     (case parse_readme enum today content of
        Inl e \<Rightarrow> Inl e
      | Inr data \<Rightarrow> Inr (generate_html tpl_head tpl_tail data))"

section \<open>The words of the specification\<close>

text \<open>
  The specification describes the scan without the pending record, the counter and the
  dictionary of URLs: every title line of a section other than the table of contents
  starts one entry, the metadata lines below it (up to the next title line) fill the
  entry in, and the entries of the document are merged one by one, in order, into the
  collection. The definitions of this section follow those words; the theorems below
  compare them with \<open>scan_document\<close>.
\<close>

text \<open>
  An entry: what one title line declares, under the category of its section, with the
  metadata of the lines below it.
\<close>

record entry =
  e_category :: pystr
  e_title :: pystr
  e_url :: pystr
  e_methodologies :: "pystr list"
  e_published :: pystr
  e_summary :: pystr

text \<open>One metadata line sets one field of the entry; any other line leaves it as it is.\<close>

definition apply_meta :: "entry \<Rightarrow> pystr \<Rightarrow> entry" where
  "apply_meta e line =
     (case meth_match line of
        Some g \<Rightarrow> e\<lparr>e_methodologies := map strip (split_commas g)\<rparr>
      | None \<Rightarrow>
          (case pub_match line of
             Some g \<Rightarrow> e\<lparr>e_published := strip g\<rparr>
           | None \<Rightarrow>
               (case sum_match line of
                  Some g \<Rightarrow> e\<lparr>e_summary := strip g\<rparr>
                | None \<Rightarrow> e)))"

abbreviation no_title :: "pystr \<Rightarrow> bool" where
  "no_title line \<equiv> title_match line = None"

text \<open>
  The entries of the lines of a section of category \<open>c\<close>: one for every line that matches
  the title pattern, the last one of the section included.
\<close>

fun section_entries :: "pystr \<Rightarrow> pystr list \<Rightarrow> entry list" where
  "section_entries c [] = []"
| "section_entries c (line # rest) =
     (case title_match line of
        None \<Rightarrow> section_entries c rest
      | Some (t, u) \<Rightarrow>
          foldl apply_meta
            \<lparr>e_category = c, e_title = t, e_url = u, e_methodologies = [],
             e_published = [], e_summary = []\<rparr>
            (takeWhile no_title rest)
          # section_entries c rest)"

text \<open>
  The entries of a section: its first line is the category, and the table of contents has
  none. The entries of the document are those of its sections after the preamble.
\<close>

definition section_entries_of :: "pystr \<Rightarrow> entry list" where
  "section_entries_of section =
     (case split_lines (strip section) of
        [] \<Rightarrow> []
      | l0 # ls \<Rightarrow>
          if strip l0 = str ''Table of Contents'' then [] else section_entries (strip l0) ls)"

definition doc_entries :: "pystr \<Rightarrow> entry list" where
  "doc_entries content = concat (map section_entries_of (tl (split_sections content)))"

text \<open>
  The merge rule: an entry with a new URL becomes a record at the end of the collection,
  with the next identifier; an entry with a URL that is there adds its category to the
  record of that URL unless the record has it, and nothing else of the entry is kept.
\<close>

definition merge_entry :: "paper list \<Rightarrow> entry \<Rightarrow> paper list" where
  "merge_entry ps e =
     (if e_url e \<in> url ` set ps
      then map (\<lambda>p. if url p = e_url e \<and> e_category e \<notin> set (applications p)
                     then p\<lparr>applications := applications p @ [e_category e]\<rparr> else p) ps
      else ps @ [\<lparr>pid = length ps, title = e_title e, url = e_url e,
                   methodologies = e_methodologies e, applications = [e_category e],
                   published = e_published e, summary = e_summary e\<rparr>])"

text \<open>
  The order of first appearance: the elements of a list, each once, in the order in which
  they first occur.
\<close>

definition add_new :: "'a list \<Rightarrow> 'a \<Rightarrow> 'a list" where
  "add_new acc x = (if x \<in> set acc then acc else acc @ [x])"

definition first_seen :: "'a list \<Rightarrow> 'a list" where
  "first_seen xs = foldl add_new [] xs"

text \<open>
  The categories a URL is declared under, and the first entry that declares it.
\<close>

definition categories_of :: "pystr \<Rightarrow> entry list \<Rightarrow> pystr list" where
  "categories_of u es = first_seen (map e_category (filter (\<lambda>e. e_url e = u) es))"

definition first_entry :: "pystr \<Rightarrow> entry list \<Rightarrow> entry option" where
  "first_entry u es = List.find (\<lambda>e. e_url e = u) es"

text \<open>
  The rename table as the specification words it: one tag is renamed, one is dropped, every
  other tag passes through.
\<close>

definition rename_tag :: "pystr \<Rightarrow> pystr option" where
  "rename_tag m =
     (if m = str ''Machine Learning'' then Some (str ''Machine learning'')
      else if m = str ''Artificial Intelligence'' then None
      else Some m)"

definition renamed :: "pystr list \<Rightarrow> pystr list" where
  "renamed ms = List.map_filter rename_tag ms"

text \<open>A line that matches none of the four patterns.\<close>

definition plain_line :: "pystr \<Rightarrow> bool" where
  "plain_line l \<longleftrightarrow>
     title_match l = None \<and> meth_match l = None \<and> pub_match l = None \<and> sum_match l = None"

text \<open>The literal \<open>p\<close> occurs somewhere in the text.\<close>

fun occurs :: "pystr \<Rightarrow> pystr \<Rightarrow> bool" where
  "occurs p [] = (lit p [] \<noteq> None)"
| "occurs p (c # cs) = (lit p (c # cs) \<noteq> None \<or> occurs p cs)"

text \<open>The marker of a section, \<^verbatim>\<open>"\n## "\<close>.\<close>

definition marker :: pystr where
  "marker = NL # str ''## ''"

text \<open>
  The characters of a text that was decoded from a file: Unicode scalar values, that is
  code points up to \<^verbatim>\<open>0x10FFFF\<close> that are not surrogates.
\<close>

definition valid_char :: "pychar \<Rightarrow> bool" where
  "valid_char c \<longleftrightarrow> c < 55296 \<or> (57344 \<le> c \<and> c < 1114112)"

definition valid_str :: "pystr \<Rightarrow> bool" where
  "valid_str s \<longleftrightarrow> list_all valid_char s"

text \<open>A dataset whose strings are texts of scalar values.\<close>

definition wf_paper :: "tagged_paper \<Rightarrow> bool" where
  "wf_paper p \<longleftrightarrow>
     valid_str (title p) \<and> valid_str (url p) \<and> list_all valid_str (methodologies p) \<and>
     list_all valid_str (applications p) \<and> valid_str (published p) \<and> valid_str (summary p)"

definition wf_row :: "(pystr \<times> nat) list \<Rightarrow> bool" where
  "wf_row row \<longleftrightarrow> list_all valid_str (map fst row)"

definition wf_dataset :: "dataset \<Rightarrow> bool" where
  "wf_dataset d \<longleftrightarrow>
     list_all wf_paper (d_papers d) \<and> list_all valid_str (d_applications d) \<and>
     list_all valid_str (d_methodologies d) \<and>
     list_all valid_str (map fst (d_matrix d)) \<and> list_all wf_row (map snd (d_matrix d)) \<and>
     valid_str (d_lastUpdated d)"

text \<open>The characters of the strings of a dataset.\<close>

definition paper_chars :: "tagged_paper \<Rightarrow> pychar set" where
  "paper_chars p =
     set (title p) \<union> set (url p) \<union> (\<Union>m\<in>set (methodologies p). set m) \<union>
     (\<Union>a\<in>set (applications p). set a) \<union> set (published p) \<union> set (summary p)"

definition dataset_chars :: "dataset \<Rightarrow> pychar set" where
  "dataset_chars d =
     (\<Union>p\<in>set (d_papers d). paper_chars p) \<union> (\<Union>a\<in>set (d_applications d). set a) \<union>
     (\<Union>m\<in>set (d_methodologies d). set m) \<union>
     (\<Union>kv\<in>set (d_matrix d). set (fst kv) \<union> (\<Union>cell\<in>set (snd kv). set (fst cell))) \<union>
     set (d_lastUpdated d)"

section \<open>Example documents\<close>

text \<open>A document given line by line; every line ends with a newline.\<close>

definition text_of :: "string list \<Rightarrow> pystr" where
  "text_of ls = concat (map (\<lambda>l. str l @ [NL]) ls)"

text \<open>
  The sample scenario of the specification, with a table of contents before it and a
  second paper that is declared under the reviews only.
\<close>

definition doc0 :: pystr where
  "doc0 = text_of
     [''# T'',
      ''## Table of Contents'',
      ''- **[X](x)**'',
      ''## Oncology'',
      ''- **[A](u)**'',
      ''  - Methodology: Machine Learning, Deep Learning'',
      ''  - Published: 2023Jan15'',
      ''## Reviews / Tutorials / Perspectives'',
      ''- **[A2](u)**'',
      ''- **[B](v)**'',
      ''  - Summary: s'']"

definition date0 :: pystr where
  "date0 = str ''2024-05-01''"

text \<open>What the parse of \<open>doc0\<close> returns when sets are iterated in the order \<open>order_a\<close> below.\<close>

definition d0 :: dataset where
  "d0 =
     \<lparr>d_papers =
        [\<lparr>pid = 0, title = str ''A'', url = str ''u'',
           methodologies = [str ''Machine learning'', str ''Deep Learning''],
           applications = [str ''Oncology''],
           published = str ''2023Jan15'', summary = [], is_review = True\<rparr>,
         \<lparr>pid = 1, title = str ''B'', url = str ''v'', methodologies = [],
           applications = [], published = [], summary = str ''s'', is_review = True\<rparr>],
      d_applications = [str ''Oncology''],
      d_methodologies = [str ''Deep Learning'', str ''Machine learning''],
      d_matrix =
        [(str ''Oncology'', [(str ''Deep Learning'', 1), (str ''Machine learning'', 1)])],
      d_lastUpdated = date0\<rparr>"

text \<open>Two iteration orders of a set: the elements by their last insertion, and that reversed.\<close>

definition order_a :: set_order where
  "order_a = remdups"

definition order_b :: set_order where
  "order_b xs = rev (remdups xs)"

text \<open>A paper that lists the alias and its target, and a paper that lists the dropped tag only.\<close>

definition doc1 :: pystr where
  "doc1 = text_of
     [''p'',
      ''## C'',
      ''- **[P](p)**'',
      ''  - Methodology: Machine Learning, Machine learning'',
      ''- **[Q](q)**'',
      ''  - Methodology: Artificial Intelligence'']"

definition raw1 :: "paper list" where
  "raw1 =
     [\<lparr>pid = 0, title = str ''P'', url = str ''p'',
        methodologies = [str ''Machine Learning'', str ''Machine learning''],
        applications = [str ''C''], published = [], summary = []\<rparr>,
      \<lparr>pid = 1, title = str ''Q'', url = str ''q'',
        methodologies = [str ''Artificial Intelligence''],
        applications = [str ''C''], published = [], summary = []\<rparr>]"

text \<open>A heading on the very first line, and the same heading after an empty first line.\<close>

definition doc2 :: pystr where
  "doc2 = text_of [''## Oncology'', ''- **[A](u)**'']"

definition doc3 :: pystr where
  "doc3 = text_of ['''', ''## Oncology'', ''- **[A](u)**'']"

text \<open>What the parse of \<open>doc0\<close> returns when sets are iterated in the order \<open>order_b\<close>.\<close>

definition d0b :: dataset where
  "d0b =
     \<lparr>d_papers =
        [\<lparr>pid = 0, title = str ''A'', url = str ''u'',
           methodologies = [str ''Deep Learning'', str ''Machine learning''],
           applications = [str ''Oncology''],
           published = str ''2023Jan15'', summary = [], is_review = True\<rparr>,
         \<lparr>pid = 1, title = str ''B'', url = str ''v'', methodologies = [],
           applications = [], published = [], summary = str ''s'', is_review = True\<rparr>],
      d_applications = [str ''Oncology''],
      d_methodologies = [str ''Deep Learning'', str ''Machine learning''],
      d_matrix =
        [(str ''Oncology'', [(str ''Deep Learning'', 1), (str ''Machine learning'', 1)])],
      d_lastUpdated = date0\<rparr>"

section \<open>Definitions for the proofs\<close>

text \<open>
  The entry that a pending record stands for, and the invariant of the scan: the counter is
  the length of the collection, no two records share a URL, and the dictionary of URLs
  maps each URL of the collection to its position and nothing else.
\<close>

definition entry_of :: "pystr \<Rightarrow> paper \<Rightarrow> entry" where
  "entry_of c p = \<lparr>e_category = c, e_title = title p, e_url = url p,
     e_methodologies = methodologies p, e_published = published p, e_summary = summary p\<rparr>"

definition state_ok :: "pstate \<Rightarrow> bool" where
  "state_ok st \<longleftrightarrow>
     paper_id st = length (papers st) \<and>
     distinct (map url (papers st)) \<and>
     (\<forall>u i. seen_urls st u = Some i \<longleftrightarrow> i < length (papers st) \<and> url (papers st ! i) = u)"

text \<open>
  The entries that the rest of the lines of a section gives while the entry \<open>e\<close> is
  pending; a pending record as the scan creates it; the entries that are left to merge.
\<close>

definition pending_entries :: "pystr \<Rightarrow> entry \<Rightarrow> pystr list \<Rightarrow> entry list" where
  "pending_entries c e ls =
     foldl apply_meta e (takeWhile no_title ls) # section_entries c (dropWhile no_title ls)"

definition pending_ok :: "pystr \<Rightarrow> paper option \<Rightarrow> pstate \<Rightarrow> bool" where
  "pending_ok c cur st \<longleftrightarrow>
     (case cur of None \<Rightarrow> True | Some p \<Rightarrow> pid p = length (papers st) \<and> applications p = [c])"

definition entries_from :: "pystr \<Rightarrow> paper option \<Rightarrow> pystr list \<Rightarrow> entry list" where
  "entries_from c cur ls =
     (case cur of None \<Rightarrow> section_entries c ls | Some p \<Rightarrow> pending_entries c (entry_of c p) ls)"

text \<open>
  What the merged collection holds when the entries \<open>es\<close> have been merged.
\<close>

definition collected :: "entry list \<Rightarrow> paper list \<Rightarrow> bool" where
  "collected es ps \<longleftrightarrow>
     map url ps = first_seen (map e_url es) \<and>
     map pid ps = [0..<length ps] \<and>
     (\<forall>p\<in>set ps. applications p = categories_of (url p) es \<and>
        (\<exists>e. first_entry (url p) es = Some e \<and> title p = e_title e \<and>
             methodologies p = e_methodologies e \<and> published p = e_published e \<and>
             summary p = e_summary e))"

text \<open>Reading one character of a JSON string back, and a number.\<close>

definition unhex_digit :: "pychar \<Rightarrow> nat" where
  "unhex_digit h = (if h < 58 then h - 48 else h - 87)"

definition unhex4 :: "pystr \<Rightarrow> nat" where
  "unhex4 hs = foldl (\<lambda>a h. 16 * a + unhex_digit h) 0 (take 4 hs)"

definition unescape :: "pystr \<Rightarrow> (pychar \<times> pystr) option" where
  "unescape s =
     (case s of
        [] \<Rightarrow> None
      | c # r \<Rightarrow>
          if c \<noteq> 92 then Some (c, r)
          else (case r of
                  [] \<Rightarrow> None
                | e # r' \<Rightarrow>
                    if e = 110 then Some (10, r')
                    else if e = 114 then Some (13, r')
                    else if e = 116 then Some (9, r')
                    else if e = 98 then Some (8, r')
                    else if e = 102 then Some (12, r')
                    else if e \<noteq> 117 then Some (e, r')
                    else let n = unhex4 r'; r'' = drop 4 r' in
                      if 55296 \<le> n \<and> n < 56320
                      then Some (65536 + (n - 55296) * 1024 + (unhex4 (drop 2 r'') - 56320),
                                 drop 6 r'')
                      else Some (n, r'')))"

text \<open>
  The digits of a number, read back.
\<close>

definition is_digit :: "pychar \<Rightarrow> bool" where
  "is_digit c \<longleftrightarrow> 48 \<le> c \<and> c \<le> 57"

definition undigits :: "pystr \<Rightarrow> nat" where
  "undigits ds = foldl (\<lambda>a d. 10 * a + (d - 48)) 0 ds"

definition no_digit_first :: "pystr \<Rightarrow> bool" where
  "no_digit_first x \<longleftrightarrow> (case x of [] \<Rightarrow> True | c # r \<Rightarrow> \<not> is_digit c)"

text \<open>What follows an item of a list or of a dictionary: a comma or the closing bracket.\<close>

definition delimited :: "pychar \<Rightarrow> pystr \<Rightarrow> bool" where
  "delimited close u \<longleftrightarrow> (\<exists>r. u = 44 # r \<or> u = close # r)"

fun items_tail :: "('a \<Rightarrow> pystr) \<Rightarrow> pychar \<Rightarrow> 'a list \<Rightarrow> pystr \<Rightarrow> pystr" where
  "items_tail enc close [] z = close # z"
| "items_tail enc close (b # bs) z = 44 # enc b @ items_tail enc close bs z"

text \<open>
  The items of the rows and of the matrix, as the dictionaries write them.
\<close>

definition json_cell :: "pystr \<times> nat \<Rightarrow> pystr" where
  "json_cell kv = json_str (fst kv) @ 58 # json_nat (snd kv)"

definition json_row :: "(pystr \<times> nat) list \<Rightarrow> pystr" where
  "json_row row = json_dict (map (\<lambda>(meth, n). (meth, json_nat n)) row)"

definition json_matrix_item :: "pystr \<times> (pystr \<times> nat) list \<Rightarrow> pystr" where
  "json_matrix_item kv = json_str (fst kv) @ 58 # json_row (snd kv)"

text \<open>
  Every string of an entry is made of characters of the set \<open>S\<close>.
\<close>

definition entry_in :: "pychar set \<Rightarrow> entry \<Rightarrow> bool" where
  "entry_in S e \<longleftrightarrow>
     set (e_category e) \<subseteq> S \<and> set (e_title e) \<subseteq> S \<and> set (e_url e) \<subseteq> S \<and>
     (\<forall>m\<in>set (e_methodologies e). set m \<subseteq> S) \<and> set (e_published e) \<subseteq> S \<and>
     set (e_summary e) \<subseteq> S"

text \<open>The whitespace of a serialised text is made of spaces that stand in the strings \<open>S\<close>.\<close>

definition spaces_from :: "pychar set \<Rightarrow> pystr \<Rightarrow> bool" where
  "spaces_from S x \<longleftrightarrow> (\<forall>c\<in>set x. isspace c \<longrightarrow> c = 32 \<and> c \<in> S)"

section \<open>The scan refines the merge of the entries\<close>

lemma entry_of_simps [simp]:
  "e_category (entry_of c p) = c" "e_title (entry_of c p) = title p" "e_url (entry_of c p) = url p"
  "e_methodologies (entry_of c p) = methodologies p" "e_published (entry_of c p) = published p"
  "e_summary (entry_of c p) = summary p"
  by (simp_all add: entry_of_def)

lemma state_ok_init: "state_ok init_state"
  by (simp add: state_ok_def init_state_def)

lemma map_upd_one:
  fixes ps :: "paper list" and f :: "paper \<Rightarrow> paper"
  assumes "distinct (map url ps)" "i < length ps"
  shows "map (\<lambda>p. if url p = url (ps ! i) \<and> Q p then f p else p) ps
         = (if Q (ps ! i) then ps[i := f (ps ! i)] else ps)"
proof -
  have eq: "(url (ps ! j) = url (ps ! i)) = (j = i)" if "j < length ps" for j
    using assms that by (metis distinct_conv_nth length_map nth_map)
  let ?g = "\<lambda>p. if url p = url (ps ! i) \<and> Q p then f p else p"
  have "map ?g ps = ps[i := ?g (ps ! i)]"
  proof (rule nth_equalityI)
    show "length (map ?g ps) = length (ps[i := ?g (ps ! i)])" by simp
  next
    fix j assume "j < length (map ?g ps)"
    then have j: "j < length ps" by simp
    show "map ?g ps ! j = ps[i := ?g (ps ! i)] ! j"
    proof (cases "j = i")
      case True
      then show ?thesis using j by simp
    next
      case False
      then show ?thesis using j eq[OF j] by simp
    qed
  qed
  then show ?thesis by (simp add: list_update_same_conv assms(2))
qed

lemma finalize_merge:
  assumes "state_ok st" "pid p = length (papers st)" "applications p = [c]"
  shows "\<exists>st'. finalize c p st = Inr st' \<and> state_ok st' \<and> papers st' = merge_entry (papers st) (entry_of c p)"
proof (cases "seen_urls st (url p)")
  case None
  have nin: "url p \<notin> url ` set (papers st)"
  proof
    assume "url p \<in> url ` set (papers st)"
    then obtain j where "j < length (papers st)" "url (papers st ! j) = url p"
      by (auto simp: in_set_conv_nth)
    with assms(1) have "seen_urls st (url p) = Some j" by (simp add: state_ok_def)
    with None show False by simp
  qed
  let ?st = "st\<lparr>seen_urls := (seen_urls st)(url p \<mapsto> length (papers st)),
                  papers := papers st @ [p], paper_id := paper_id st + 1\<rparr>"
  have f: "finalize c p st = Inr ?st" by (simp add: finalize_def None)
  have nin': "url (papers st ! j) \<noteq> url p" if "j < length (papers st)" for j
  proof
    assume "url (papers st ! j) = url p"
    then have "url p = url (papers st ! j)" by simp
    moreover have "papers st ! j \<in> set (papers st)" using that by (rule nth_mem)
    ultimately have "url p \<in> url ` set (papers st)" by (rule image_eqI)
    with nin show False by simp
  qed
  have i: "state_ok ?st"
    using assms(1) nin nin' unfolding state_ok_def
    by (auto simp: nth_append less_Suc_eq)
  have m: "papers ?st = merge_entry (papers st) (entry_of c p)"
    using nin assms(2,3) by (simp add: merge_entry_def)
  show ?thesis using f i m by blast
next
  case (Some i)
  from assms(1) Some have il: "i < length (papers st)" and iu: "url (papers st ! i) = url p"
    by (simp_all add: state_ok_def)
  have d: "distinct (map url (papers st))" using assms(1) by (simp add: state_ok_def)
  have "papers st ! i \<in> set (papers st)" using il by (rule nth_mem)
  with iu[symmetric] have mem: "url p \<in> url ` set (papers st)" by (rule image_eqI)
  let ?ex = "papers st ! i"
  have m: "merge_entry (papers st) (entry_of c p) =
           (if c \<notin> set (applications ?ex) then (papers st)[i := ?ex\<lparr>applications := applications ?ex @ [c]\<rparr>] else papers st)"
    using map_upd_one[OF d il, of "\<lambda>q. c \<notin> set (applications q)" "\<lambda>q. q\<lparr>applications := applications q @ [c]\<rparr>"] mem iu
    by (simp add: merge_entry_def cong: if_cong)
  show ?thesis
  proof (cases "c \<in> set (applications ?ex)")
    case True
    then show ?thesis using Some il m assms(1) by (simp add: finalize_def)
  next
    case False
    let ?st = "st\<lparr>papers := (papers st)[i := ?ex\<lparr>applications := applications ?ex @ [c]\<rparr>]\<rparr>"
    have f: "finalize c p st = Inr ?st" using Some il False by (simp add: finalize_def Let_def)
    have urls: "map url (papers ?st) = map url (papers st)"
      using il by (simp add: map_update list_update_same_conv)
    have nthu: "url (papers ?st ! j) = url (papers st ! j)" for j
      by (cases "j = i") (simp_all add: il)
    have i: "state_ok ?st"
      unfolding state_ok_def
    proof (intro conjI allI)
      show "paper_id ?st = length (papers ?st)" using assms(1) by (simp add: state_ok_def)
      show "distinct (map url (papers ?st))" using d urls by simp
      fix u j
      have "length (papers ?st) = length (papers st)" by simp
      then show "(seen_urls ?st u = Some j) = (j < length (papers ?st) \<and> url (papers ?st ! j) = u)"
        using assms(1) nthu[of j] unfolding state_ok_def by simp
    qed
    show ?thesis using f i m False by simp
  qed
qed

lemma section_entries_drop: "section_entries c (dropWhile no_title ls) = section_entries c ls"
  by (induction ls) auto

lemma section_entries_title:
  "title_match l = Some (t, u) \<Longrightarrow>
   section_entries c (l # ls) =
     pending_entries c \<lparr>e_category = c, e_title = t, e_url = u, e_methodologies = [],
                        e_published = [], e_summary = []\<rparr> ls"
  by (simp add: pending_entries_def section_entries_drop)

lemma pending_entries_title:
  "title_match l = Some (t, u) \<Longrightarrow> pending_entries c e (l # ls) = e # section_entries c (l # ls)"
  by (simp add: pending_entries_def)

lemma pending_entries_meta:
  "title_match l = None \<Longrightarrow> pending_entries c e (l # ls) = pending_entries c (apply_meta e l) ls"
  by (simp add: pending_entries_def)

lemma scan_lines_meta:
  assumes "title_match l = None"
  shows "\<exists>p'. scan_lines c (l # ls) (Some p) st = scan_lines c ls (Some p') st \<and>
              entry_of c p' = apply_meta (entry_of c p) l \<and>
              pid p' = pid p \<and> applications p' = applications p"
proof (cases "meth_match l")
  case (Some g)
  then show ?thesis using assms
    by (intro exI[of _ "p\<lparr>methodologies := map strip (split_commas g)\<rparr>"])
       (simp add: entry_of_def apply_meta_def)
next
  case None
  note m = this
  show ?thesis
  proof (cases "pub_match l")
    case (Some g)
    then show ?thesis using assms m
      by (intro exI[of _ "p\<lparr>published := strip g\<rparr>"]) (simp add: entry_of_def apply_meta_def)
  next
    case None
    note pb = this
    show ?thesis
    proof (cases "sum_match l")
      case (Some g)
      then show ?thesis using assms m pb
        by (intro exI[of _ "p\<lparr>summary := strip g\<rparr>"]) (simp add: entry_of_def apply_meta_def)
    next
      case None
      then show ?thesis using assms m pb
        by (intro exI[of _ p]) (simp add: entry_of_def apply_meta_def)
    qed
  qed
qed

lemma flush_merge:
  assumes "state_ok st" "pending_ok c cur st"
  shows "\<exists>st'. flush c cur st = Inr st' \<and> state_ok st' \<and>
           papers st' = foldl merge_entry (papers st) (entries_from c cur [])"
proof (cases cur)
  case None
  then show ?thesis using assms by (simp add: flush_def entries_from_def)
next
  case (Some p)
  with assms have "pid p = length (papers st)" "applications p = [c]"
    by (simp_all add: pending_ok_def)
  from finalize_merge[OF assms(1) this] Some show ?thesis
    by (simp add: flush_def entries_from_def pending_entries_def)
qed

lemma scan_lines_refines:
  assumes "state_ok st" "pending_ok c cur st"
  shows "\<exists>cur' st' st''. scan_lines c ls cur st = Inr (cur', st') \<and>
           flush c cur' st' = Inr st'' \<and> state_ok st'' \<and>
           papers st'' = foldl merge_entry (papers st) (entries_from c cur ls)"
  using assms
proof (induction ls arbitrary: cur st)
  case Nil
  from flush_merge[OF Nil] show ?case by auto
next
  case (Cons l ls)
  show ?case
  proof (cases "title_match l")
    case None
    note nt = this
    show ?thesis
    proof (cases cur)
      case None
      with Cons.IH[OF Cons.prems(1), of None] nt show ?thesis
        by (simp add: pending_ok_def entries_from_def)
    next
      case (Some p)
      from scan_lines_meta[OF nt, of c ls p st] obtain p' where
        p': "scan_lines c (l # ls) (Some p) st = scan_lines c ls (Some p') st"
            "entry_of c p' = apply_meta (entry_of c p) l"
            "pid p' = pid p" "applications p' = applications p" by blast
      have ok: "pending_ok c (Some p') st"
        using Cons.prems(2) Some p'(3,4) by (simp add: pending_ok_def)
      from Cons.IH[OF Cons.prems(1) ok] show ?thesis
        using Some p'(1,2) nt by (simp add: entries_from_def pending_entries_meta)
    qed
  next
    case (Some tu)
    obtain t u where tu: "tu = (t, u)" by (cases tu)
    from flush_merge[OF Cons.prems] obtain st1 where
      st1: "flush c cur st = Inr st1" "state_ok st1"
           "papers st1 = foldl merge_entry (papers st) (entries_from c cur [])" by blast
    let ?new = "\<lparr>pid = paper_id st1, title = t, url = u, methodologies = [],
                  applications = [c], published = [], summary = []\<rparr>"
    have ok: "pending_ok c (Some ?new) st1"
      using st1(2) by (simp add: pending_ok_def state_ok_def)
    have sl: "scan_lines c (l # ls) cur st = scan_lines c ls (Some ?new) st1"
      using Some tu st1(1) by simp
    have en: "entries_from c cur (l # ls) = entries_from c cur [] @ entries_from c (Some ?new) ls"
      using Some tu
      by (cases cur)
         (simp_all add: entries_from_def section_entries_title pending_entries_title entry_of_def
            pending_entries_def del: section_entries.simps(2))
    from Cons.IH[OF st1(2) ok] show ?thesis
      unfolding sl en by (simp add: st1(3))
  qed
qed

lemma split_on_nonempty: "split_on d ds acc s \<noteq> []"
  by (induction d ds acc s rule: split_on.induct) (auto split: option.splits)

lemma scan_section_refines:
  assumes "state_ok st"
  shows "\<exists>st'. scan_section section st = Inr st' \<and> state_ok st' \<and>
           papers st' = foldl merge_entry (papers st) (section_entries_of section)"
proof (cases "split_lines (strip section)")
  case Nil
  then show ?thesis using split_on_nonempty by (simp add: split_lines_def)
next
  case (Cons l0 ls)
  show ?thesis
  proof (cases "strip l0 = str ''Table of Contents''")
    case True
    then show ?thesis using Cons assms by (simp add: scan_section_def section_entries_of_def)
  next
    case False
    have ok: "pending_ok (strip l0) None st" by (simp add: pending_ok_def)
    from scan_lines_refines[OF assms ok, of ls] show ?thesis
      using Cons False
      by (auto simp: scan_section_def section_entries_of_def entries_from_def)
  qed
qed

lemma scan_sections_refines:
  assumes "state_ok st"
  shows "\<exists>st'. scan_sections secs st = Inr st' \<and> state_ok st' \<and>
           papers st' = foldl merge_entry (papers st) (concat (map section_entries_of secs))"
  using assms
proof (induction secs arbitrary: st)
  case Nil
  then show ?case by simp
next
  case (Cons sec secs)
  from scan_section_refines[OF Cons.prems, of sec] obtain st1 where
    st1: "scan_section sec st = Inr st1" "state_ok st1"
         "papers st1 = foldl merge_entry (papers st) (section_entries_of sec)" by blast
  from Cons.IH[OF st1(2)] show ?case using st1(1,3) by simp
qed

lemma scan_document_refines: "scan_document content = Inr (foldl merge_entry [] (doc_entries content))"
proof -
  from scan_sections_refines[OF state_ok_init, of "tl (split_sections content)"]
  show ?thesis by (auto simp: scan_document_def doc_entries_def init_state_def)
qed

section \<open>What the merged collection holds\<close>

lemma first_seen_Nil [simp]: "first_seen [] = []"
  by (simp add: first_seen_def)

lemma first_seen_snoc: "first_seen (xs @ [x]) = add_new (first_seen xs) x"
  by (simp add: first_seen_def)

lemma set_first_seen [simp]: "set (first_seen xs) = set xs"
  by (induction xs rule: rev_induct) (auto simp: first_seen_snoc add_new_def)

lemma distinct_first_seen [simp]: "distinct (first_seen xs)"
  by (induction xs rule: rev_induct) (auto simp: first_seen_snoc add_new_def)

lemma find_append:
  "List.find P (xs @ ys) = (case List.find P xs of Some x \<Rightarrow> Some x | None \<Rightarrow> List.find P ys)"
  by (induction xs) auto

lemma collected_Nil: "collected [] []"
  by (simp add: collected_def)

lemma categories_of_snoc:
  "categories_of u (es @ [e]) =
     (if e_url e = u then add_new (categories_of u es) (e_category e) else categories_of u es)"
  by (simp add: categories_of_def first_seen_snoc)

lemma first_entry_snoc:
  "first_entry u (es @ [e]) =
     (case first_entry u es of Some x \<Rightarrow> Some x | None \<Rightarrow> if e_url e = u then Some e else None)"
  by (simp add: first_entry_def find_append split: option.splits)

lemma first_entry_None: "first_entry u es = None \<longleftrightarrow> u \<notin> e_url ` set es"
  by (auto simp: first_entry_def find_None_iff)

lemma categories_of_unseen: "u \<notin> e_url ` set es \<Longrightarrow> categories_of u es = []"
proof -
  assume "u \<notin> e_url ` set es"
  then have "filter (\<lambda>e. e_url e = u) es = []" by (auto simp: filter_empty_conv)
  then show ?thesis by (simp add: categories_of_def)
qed

lemma collected_merge:
  assumes "collected es ps"
  shows "collected (es @ [e]) (merge_entry ps e)"
proof -
  from assms have urls: "map url ps = first_seen (map e_url es)"
    and pids: "map pid ps = [0..<length ps]"
    and flds: "\<And>p. p \<in> set ps \<Longrightarrow> applications p = categories_of (url p) es \<and>
        (\<exists>e. first_entry (url p) es = Some e \<and> title p = e_title e \<and>
             methodologies p = e_methodologies e \<and> published p = e_published e \<and>
             summary p = e_summary e)"
    by (auto simp: collected_def)
  have seen: "url ` set ps = e_url ` set es"
  proof -
    have "set (map url ps) = set (map e_url es)" by (simp add: urls)
    then show ?thesis by simp
  qed
  show ?thesis
  proof (cases "e_url e \<in> url ` set ps")
    case True
    let ?g = "\<lambda>p. if url p = e_url e \<and> e_category e \<notin> set (applications p)
                  then p\<lparr>applications := applications p @ [e_category e]\<rparr> else p"
    have m: "merge_entry ps e = map ?g ps" using True by (simp add: merge_entry_def)
    have u: "map url (map ?g ps) = map url ps" by (simp add: comp_def)
    have p: "map pid (map ?g ps) = map pid ps" by (simp add: comp_def)
    have a: "map url (map ?g ps) = first_seen (map e_url (es @ [e]))"
      using True seen u urls by (simp add: first_seen_snoc add_new_def)
    have b: "map pid (map ?g ps) = [0..<length (map ?g ps)]"
      using p pids by simp
    have c: "applications q = categories_of (url q) (es @ [e]) \<and>
        (\<exists>x. first_entry (url q) (es @ [e]) = Some x \<and> title q = e_title x \<and>
             methodologies q = e_methodologies x \<and> published q = e_published x \<and>
             summary q = e_summary x)" if "q \<in> set (map ?g ps)" for q
    proof -
      from that obtain p0 where p0: "p0 \<in> set ps" "q = ?g p0" by auto
      from flds[OF p0(1)] obtain x where
        ap: "applications p0 = categories_of (url p0) es" and
        x: "first_entry (url p0) es = Some x" "title p0 = e_title x"
           "methodologies p0 = e_methodologies x" "published p0 = e_published x"
           "summary p0 = e_summary x" by blast
      have uq: "url q = url p0" using p0(2) by simp
      have "applications q = categories_of (url p0) (es @ [e])"
        using p0(2) ap by (auto simp: categories_of_snoc add_new_def)
      moreover have "first_entry (url p0) (es @ [e]) = Some x"
        using x(1) by (simp add: first_entry_snoc)
      moreover have "title q = e_title x" "methodologies q = e_methodologies x"
        "published q = e_published x" "summary q = e_summary x"
        using p0(2) x by auto
      ultimately show ?thesis using uq by simp
    qed
    show ?thesis unfolding collected_def m using a b c by blast
  next
    case False
    let ?n = "\<lparr>pid = length ps, title = e_title e, url = e_url e,
                   methodologies = e_methodologies e, applications = [e_category e],
                   published = e_published e, summary = e_summary e\<rparr>"
    have m: "merge_entry ps e = ps @ [?n]" using False by (simp add: merge_entry_def)
    have unseen: "e_url e \<notin> e_url ` set es" using False seen by simp
    have a: "map url (ps @ [?n]) = first_seen (map e_url (es @ [e]))"
      using unseen by (simp add: urls first_seen_snoc add_new_def)
    have b: "map pid (ps @ [?n]) = [0..<length (ps @ [?n])]"
      by (simp add: pids)
    have c: "applications q = categories_of (url q) (es @ [e]) \<and>
        (\<exists>x. first_entry (url q) (es @ [e]) = Some x \<and> title q = e_title x \<and>
             methodologies q = e_methodologies x \<and> published q = e_published x \<and>
             summary q = e_summary x)" if "q \<in> set (ps @ [?n])" for q
    proof (cases "q \<in> set ps")
      case True
      from flds[OF True] obtain x where
        ap: "applications q = categories_of (url q) es" and
        x: "first_entry (url q) es = Some x" "title q = e_title x"
           "methodologies q = e_methodologies x" "published q = e_published x"
           "summary q = e_summary x" by blast
      have ne: "e_url e \<noteq> url q" using True False by auto
      have "applications q = categories_of (url q) (es @ [e])"
        using ap ne by (simp add: categories_of_snoc)
      moreover have "first_entry (url q) (es @ [e]) = Some x"
        using x(1) by (simp add: first_entry_snoc)
      ultimately show ?thesis using x by simp
    next
      case False
      with that have q: "q = ?n" by simp
      have "first_entry (e_url e) es = None" using unseen by (simp add: first_entry_None)
      then have "first_entry (url q) (es @ [e]) = Some e" by (simp add: q first_entry_snoc)
      moreover have "applications q = categories_of (url q) (es @ [e])"
        using unseen by (simp add: q categories_of_snoc categories_of_unseen add_new_def)
      ultimately show ?thesis by (simp add: q)
    qed
    show ?thesis unfolding collected_def m using a b c by blast
  qed
qed

lemma collected_foldl: "collected es (foldl merge_entry [] es)"
proof (induction es rule: rev_induct)
  case Nil
  show ?case by (simp add: collected_Nil)
next
  case (snoc e es)
  then show ?case by (simp add: collected_merge)
qed

lemma dot_plus_lazy_Some:
  "dot_plus_lazy k acc s = Some r \<Longrightarrow> \<exists>a rest. a \<noteq> [] \<and> k (acc @ a) rest = Some r"
proof (induction s arbitrary: acc)
  case Nil
  then show ?case by simp
next
  case (Cons c cs)
  show ?case
  proof (cases "k (acc @ [c]) cs")
    case None
    with Cons.prems have "dot_plus_lazy k (acc @ [c]) cs = Some r"
      by (simp split: if_splits)
    from Cons.IH[OF this] obtain a rest where "a \<noteq> []" "k ((acc @ [c]) @ a) rest = Some r"
      by blast
    then have "c # a \<noteq> [] \<and> k (acc @ (c # a)) rest = Some r" by simp
    then show ?thesis by blast
  next
    case (Some r')
    with Cons.prems have "r' = r" by (simp split: if_splits)
    with Some have "[c] \<noteq> [] \<and> k (acc @ [c]) cs = Some r" by simp
    then show ?thesis by blast
  qed
qed

lemma dot_plus_lazy_Nil_Some:
  assumes "dot_plus_lazy k [] s = Some r"
  shows "\<exists>a rest. a \<noteq> [] \<and> k a rest = Some r"
  using dot_plus_lazy_Some[OF assms] by simp

lemma title_match_nonempty:
  assumes "title_match line = Some (t, u)"
  shows "t \<noteq> [] \<and> u \<noteq> []"
proof -
  from assms obtain r1 where r1: "lit (str ''- **['') line = Some r1"
    by (auto simp: title_match_def split: option.splits)
  let ?k2 = "\<lambda>t (u::pystr) r4. case lit (str '')**'') r4 of
                        None \<Rightarrow> None
                      | Some r5 \<Rightarrow> Some (t, u)"
  let ?k1 = "\<lambda>(t::pystr) r2. case lit (str '']('') r2 of
                None \<Rightarrow> None
              | Some r3 \<Rightarrow> dot_plus_lazy (?k2 t) [] r3"
  from assms r1 have "dot_plus_lazy ?k1 [] r1 = Some (t, u)"
    by (simp add: title_match_def)
  from dot_plus_lazy_Nil_Some[OF this] obtain a rest where
    a: "a \<noteq> []" "?k1 a rest = Some (t, u)" by blast
  then obtain r3 where "dot_plus_lazy (?k2 a) [] r3 = Some (t, u)"
    by (auto split: option.splits)
  from dot_plus_lazy_Nil_Some[OF this] obtain b rest' where
    b: "b \<noteq> []" "?k2 a b rest' = Some (t, u)" by blast
  then have "t = a \<and> u = b" by (auto split: option.splits)
  with a(1) b(1) show ?thesis by simp
qed

lemma apply_meta_keeps [simp]:
  "e_category (apply_meta e l) = e_category e" "e_title (apply_meta e l) = e_title e"
  "e_url (apply_meta e l) = e_url e"
  by (simp_all add: apply_meta_def split: option.splits)

lemma foldl_apply_meta_keeps [simp]:
  "e_category (foldl apply_meta e ls) = e_category e"
  "e_title (foldl apply_meta e ls) = e_title e"
  "e_url (foldl apply_meta e ls) = e_url e"
  by (induction ls arbitrary: e) simp_all

lemma section_entries_wf:
  "e \<in> set (section_entries c ls) \<Longrightarrow> e_category e = c \<and> e_title e \<noteq> [] \<and> e_url e \<noteq> []"
proof (induction ls)
  case Nil
  then show ?case by simp
next
  case (Cons l ls)
  show ?case
  proof (cases "title_match l")
    case None
    with Cons show ?thesis by simp
  next
    case (Some tu)
    obtain t u where tu: "tu = (t, u)" by (cases tu)
    from Some tu have "t \<noteq> [] \<and> u \<noteq> []" by (simp add: title_match_nonempty)
    with Cons Some tu show ?thesis by auto
  qed
qed

lemma doc_entries_wf:
  assumes "e \<in> set (doc_entries content)"
  shows "e_title e \<noteq> [] \<and> e_url e \<noteq> []"
proof -
  from assms obtain sec where "e \<in> set (section_entries_of sec)"
    by (auto simp: doc_entries_def)
  then show ?thesis
    by (auto simp: section_entries_of_def dest: section_entries_wf split: list.splits if_splits)
qed

lemma first_entry_Some:
  "first_entry u es = Some e \<Longrightarrow> e \<in> set es \<and> e_url e = u"
  by (auto simp: first_entry_def find_Some_iff)

lemma section_entries_count:
  "length (section_entries c ls) = length (filter (\<lambda>l. title_match l \<noteq> None) ls)"
  by (induction ls) (auto split: option.splits)

section \<open>From the scan to the returned dictionary\<close>

lemma parse_readme_eq:
  "parse_readme enum today content =
     Inr (aggregate enum today
            (map tag_review (map (normalize_paper enum) (foldl merge_entry [] (doc_entries content)))))"
  by (simp add: parse_readme_def scan_document_refines)

lemma d_papers_aggregate [simp]: "d_papers (aggregate enum today ps) = ps"
  by (simp add: aggregate_def Let_def)

lemma tagged_fields [simp]:
  "pid (tag_review (normalize_paper enum p)) = pid p"
  "title (tag_review (normalize_paper enum p)) = title p"
  "url (tag_review (normalize_paper enum p)) = url p"
  "published (tag_review (normalize_paper enum p)) = published p"
  "summary (tag_review (normalize_paper enum p)) = summary p"
  "methodologies (tag_review (normalize_paper enum p)) = enum (clean (methodologies p))"
  "applications (tag_review (normalize_paper enum p)) = filter (\<lambda>a. a \<noteq> REVIEWS) (applications p)"
  "is_review (tag_review (normalize_paper enum p)) = (REVIEWS \<in> set (applications p))"
  by (simp_all add: tag_review_def normalize_paper_def)

text \<open>The example document, scanned and parsed.\<close>

lemmas eval_scan =
  str_def isspace_def lstrip_def rstrip_def strip_def split_sections_def split_lines_def
  split_commas_def dot_plus_def title_match_def meta_match_def meth_match_def pub_match_def
  sum_match_def init_state_def finalize_def flush_def scan_section_def scan_document_def
  text_of_def Let_def

lemma doc0_scan:
  "scan_document doc0 = Inr
     [\<lparr>pid = 0, title = str ''A'', url = str ''u'',
        methodologies = [str ''Machine Learning'', str ''Deep Learning''],
        applications = [str ''Oncology'', REVIEWS],
        published = str ''2023Jan15'', summary = []\<rparr>,
      \<lparr>pid = 1, title = str ''B'', url = str ''v'', methodologies = [],
        applications = [REVIEWS], published = [], summary = str ''s''\<rparr>]"
  by (simp add: eval_scan doc0_def)

lemma doc0_parse: "parse_readme order_a date0 doc0 = Inr d0"
  unfolding parse_readme_def doc0_scan
  by (simp add: str_def order_a_def aggregate_def normalize_paper_def tag_review_def
        meth_remap_def build_matrix_def matrix_row_def count_papers_def Let_def d0_def)

section \<open>Entries, titles, identifiers and reviews\<close>

text \<open>
  C1. Every line that matches the title pattern in a section other than the table of
  contents, the last one of its section included, is finalized exactly once under the
  merge rule: the papers the scan leaves are the entries of the document (one for each
  such line, in the order of the document) merged one after the other into the empty
  collection, where merging appends a record for a new URL and, for a URL that is there,
  only adds the category to the applications of the earlier record unless it has it. So
  the applications of a record are the categories its URL is declared under, in the order
  of their first appearance, and its other fields are those of the first entry of its URL.
\<close>

theorem scan_finalizes_each_entry_once:
  "scan_document content = Inr (foldl merge_entry [] (doc_entries content)) \<and>
   (\<forall>c ls. length (section_entries c ls) = length (filter (\<lambda>l. title_match l \<noteq> None) ls)) \<and>
   (\<forall>p\<in>set (foldl merge_entry [] (doc_entries content)).
      applications p = categories_of (url p) (doc_entries content) \<and>
      (\<exists>e. first_entry (url p) (doc_entries content) = Some e \<and> title p = e_title e \<and>
           methodologies p = e_methodologies e \<and> published p = e_published e \<and>
           summary p = e_summary e))"
proof (intro conjI)
  show "scan_document content = Inr (foldl merge_entry [] (doc_entries content))"
    by (rule scan_document_refines)
  show "\<forall>c ls. length (section_entries c ls) = length (filter (\<lambda>l. title_match l \<noteq> None) ls)"
    by (simp add: section_entries_count)
  have "collected (doc_entries content) (foldl merge_entry [] (doc_entries content))"
    by (rule collected_foldl)
  then show "\<forall>p\<in>set (foldl merge_entry [] (doc_entries content)).
      applications p = categories_of (url p) (doc_entries content) \<and>
      (\<exists>e. first_entry (url p) (doc_entries content) = Some e \<and> title p = e_title e \<and>
           methodologies p = e_methodologies e \<and> published p = e_published e \<and>
           summary p = e_summary e)"
    unfolding collected_def by blast
qed

theorem scan_finalizes_each_entry_once_witness:
  "foldl merge_entry [] (doc_entries doc0) =
     [\<lparr>pid = 0, title = str ''A'', url = str ''u'',
        methodologies = [str ''Machine Learning'', str ''Deep Learning''],
        applications = [str ''Oncology'', REVIEWS],
        published = str ''2023Jan15'', summary = []\<rparr>,
      \<lparr>pid = 1, title = str ''B'', url = str ''v'', methodologies = [],
        applications = [REVIEWS], published = [], summary = str ''s''\<rparr>]"
proof -
  from scan_finalizes_each_entry_once[of doc0]
  have "scan_document doc0 = Inr (foldl merge_entry [] (doc_entries doc0))" by simp
  then show ?thesis unfolding doc0_scan by simp
qed

text \<open>
  C2. Whatever the document, the parse returns a collection in which every paper has a
  title and a URL that are not empty, and in which no two papers have the same URL: there
  is exactly one record for every URL that an entry of the document declares.
\<close>

theorem papers_have_title_and_unique_url:
  "\<exists>d. parse_readme enum today content = Inr d \<and>
       (\<forall>p\<in>set (d_papers d). title p \<noteq> [] \<and> url p \<noteq> []) \<and>
       distinct (map url (d_papers d)) \<and>
       url ` set (d_papers d) = e_url ` set (doc_entries content)"
proof -
  let ?es = "doc_entries content"
  let ?R = "foldl merge_entry [] ?es"
  let ?ps = "map tag_review (map (normalize_paper enum) ?R)"
  have c: "collected ?es ?R" by (rule collected_foldl)
  have urls: "map url ?ps = first_seen (map e_url ?es)"
  proof -
    have "map url ?ps = map url ?R" by (simp add: comp_def)
    with c show ?thesis by (simp add: collected_def)
  qed
  have ne: "title p \<noteq> [] \<and> url p \<noteq> []" if "p \<in> set ?ps" for p
  proof -
    from that obtain q where q: "q \<in> set ?R" "p = tag_review (normalize_paper enum q)"
      by auto
    from c q(1) obtain e where e: "first_entry (url q) ?es = Some e" "title q = e_title e"
      unfolding collected_def by blast
    from first_entry_Some[OF e(1)] have "e \<in> set ?es" "e_url e = url q" by simp_all
    with doc_entries_wf[of e content] e(2) q(2) show ?thesis by simp
  qed
  have d: "distinct (map url ?ps)" by (simp only: urls distinct_first_seen)
  have "set (map url ?ps) = set (map e_url ?es)" by (simp only: urls set_first_seen)
  then have s: "url ` set ?ps = e_url ` set ?es" by (simp only: set_map)
  have "parse_readme enum today content = Inr (aggregate enum today ?ps)"
    by (rule parse_readme_eq)
  moreover have "\<forall>p\<in>set (d_papers (aggregate enum today ?ps)). title p \<noteq> [] \<and> url p \<noteq> []"
    using ne by simp
  moreover have "distinct (map url (d_papers (aggregate enum today ?ps)))"
    using d by simp
  moreover have "url ` set (d_papers (aggregate enum today ?ps)) = e_url ` set ?es"
    using s by simp
  ultimately show ?thesis by blast
qed

theorem papers_have_title_and_unique_url_witness:
  "parse_readme order_a date0 doc0 = Inr d0 \<and>
   distinct (map url (d_papers d0)) \<and>
   url ` set (d_papers d0) = e_url ` set (doc_entries doc0)"
proof -
  from papers_have_title_and_unique_url[of order_a date0 doc0] obtain d where
    d: "parse_readme order_a date0 doc0 = Inr d" "distinct (map url (d_papers d))"
       "url ` set (d_papers d) = e_url ` set (doc_entries doc0)" by blast
  from d(1) have "d = d0" by (simp add: doc0_parse)
  with d show ?thesis by simp
qed

text \<open>
  C7. The identifiers are sequential in the order in which the distinct URLs are first met:
  the records of the returned collection stand in the order of first appearance of their
  URLs among the entries of the document, and the record at position \<open>i\<close> (from 0) has the
  identifier \<open>i\<close>, merged duplicates or not.
\<close>

theorem identifiers_follow_first_encounter:
  "\<exists>d. parse_readme enum today content = Inr d \<and>
       map pid (d_papers d) = [0..<length (d_papers d)] \<and>
       map url (d_papers d) = first_seen (map e_url (doc_entries content))"
proof -
  let ?es = "doc_entries content"
  let ?R = "foldl merge_entry [] ?es"
  let ?ps = "map tag_review (map (normalize_paper enum) ?R)"
  have c: "collected ?es ?R" by (rule collected_foldl)
  have "map pid ?ps = map pid ?R" by (simp add: comp_def)
  also have "\<dots> = [0..<length ?R]" using c by (simp add: collected_def)
  finally have ids: "map pid ?ps = [0..<length ?ps]" by simp
  have "map url ?ps = map url ?R" by (simp add: comp_def)
  with c have urls: "map url ?ps = first_seen (map e_url ?es)" by (simp add: collected_def)
  have "parse_readme enum today content = Inr (aggregate enum today ?ps)"
    by (rule parse_readme_eq)
  moreover have "map pid (d_papers (aggregate enum today ?ps)) =
      [0..<length (d_papers (aggregate enum today ?ps))]"
    using ids by simp
  moreover have "map url (d_papers (aggregate enum today ?ps)) = first_seen (map e_url ?es)"
    using urls by simp
  ultimately show ?thesis by blast
qed

theorem identifiers_follow_first_encounter_witness:
  "parse_readme order_a date0 doc0 = Inr d0 \<and> map pid (d_papers d0) = [0..<2] \<and>
   first_seen (map e_url (doc_entries doc0)) = [str ''u'', str ''v'']"
proof -
  from identifiers_follow_first_encounter[of order_a date0 doc0] obtain d where
    d: "parse_readme order_a date0 doc0 = Inr d"
       "map pid (d_papers d) = [0..<length (d_papers d)]"
       "map url (d_papers d) = first_seen (map e_url (doc_entries doc0))" by blast
  from d(1) have eq: "d = d0" by (simp add: doc0_parse)
  have "length (d_papers d0) = 2" by (simp add: d0_def)
  moreover have "map url (d_papers d0) = [str ''u'', str ''v'']" by (simp add: d0_def)
  ultimately show ?thesis using d eq by simp
qed

lemma distinct_singleton: "distinct xs \<Longrightarrow> set xs = {c} \<Longrightarrow> xs = [c]"
  by (cases xs) (auto simp: insert_eq_iff dest: subset_singletonD)

lemma in_categories_of:
  "c \<in> set (categories_of u es) \<longleftrightarrow> (\<exists>e\<in>set es. e_url e = u \<and> e_category e = c)"
  by (auto simp: categories_of_def)

text \<open>
  C3. A paper of the output is flagged as a review exactly when an entry of the document
  declares its URL under the category "Reviews / Tutorials / Perspectives"; that label is
  never in its applications, which are the other categories it is declared under, in the
  order of their first appearance. So a paper declared under the reviews only has no
  applications and the flag, and a paper declared under the reviews and one other
  category has that category alone and the flag.
\<close>

theorem review_flag_and_label:
  "\<exists>d. parse_readme enum today content = Inr d \<and>
     (\<forall>p\<in>set (d_papers d).
        (is_review p \<longleftrightarrow>
           (\<exists>e\<in>set (doc_entries content). e_url e = url p \<and> e_category e = REVIEWS)) \<and>
        REVIEWS \<notin> set (applications p) \<and>
        applications p =
          filter (\<lambda>a. a \<noteq> REVIEWS) (categories_of (url p) (doc_entries content)) \<and>
        (set (categories_of (url p) (doc_entries content)) = {REVIEWS} \<longrightarrow>
           applications p = [] \<and> is_review p) \<and>
        (\<forall>c. c \<noteq> REVIEWS \<and> set (categories_of (url p) (doc_entries content)) = {REVIEWS, c} \<longrightarrow>
           applications p = [c] \<and> is_review p))"
proof -
  let ?es = "doc_entries content"
  let ?R = "foldl merge_entry [] ?es"
  let ?ps = "map tag_review (map (normalize_paper enum) ?R)"
  have c: "collected ?es ?R" by (rule collected_foldl)
  have main: "(is_review p \<longleftrightarrow> (\<exists>e\<in>set ?es. e_url e = url p \<and> e_category e = REVIEWS)) \<and>
        REVIEWS \<notin> set (applications p) \<and>
        applications p = filter (\<lambda>a. a \<noteq> REVIEWS) (categories_of (url p) ?es) \<and>
        (set (categories_of (url p) ?es) = {REVIEWS} \<longrightarrow> applications p = [] \<and> is_review p) \<and>
        (\<forall>c. c \<noteq> REVIEWS \<and> set (categories_of (url p) ?es) = {REVIEWS, c} \<longrightarrow>
           applications p = [c] \<and> is_review p)" if "p \<in> set ?ps" for p
  proof -
    from that obtain q where q: "q \<in> set ?R" "p = tag_review (normalize_paper enum q)"
      by auto
    from c q(1) have aq: "applications q = categories_of (url q) ?es"
      unfolding collected_def by blast
    let ?cats = "categories_of (url p) ?es"
    have up: "url p = url q" using q(2) by simp
    have ap: "applications p = filter (\<lambda>a. a \<noteq> REVIEWS) ?cats"
      using q(2) aq by simp
    have ir: "is_review p \<longleftrightarrow> REVIEWS \<in> set ?cats"
      using q(2) aq by simp
    have ir': "is_review p \<longleftrightarrow> (\<exists>e\<in>set ?es. e_url e = url p \<and> e_category e = REVIEWS)"
      unfolding ir in_categories_of by simp
    have no: "REVIEWS \<notin> set (applications p)" by (simp add: ap)
    have only: "applications p = [] \<and> is_review p" if "set ?cats = {REVIEWS}"
      using that by (simp add: ap ir filter_empty_conv)
    have both: "applications p = [c] \<and> is_review p"
      if "c \<noteq> REVIEWS" "set ?cats = {REVIEWS, c}" for c
    proof -
      have "distinct (applications p)" by (simp add: ap categories_of_def)
      moreover have "set (applications p) = {c}" using that by (auto simp: ap)
      ultimately have "applications p = [c]" by (rule distinct_singleton)
      then show ?thesis using that by (simp add: ir)
    qed
    show ?thesis using ir' no ap only both by blast
  qed
  let ?d = "aggregate enum today ?ps"
  have eq: "parse_readme enum today content = Inr ?d"
    by (rule parse_readme_eq)
  have all: "\<forall>p\<in>set (d_papers ?d).
        (is_review p \<longleftrightarrow> (\<exists>e\<in>set ?es. e_url e = url p \<and> e_category e = REVIEWS)) \<and>
        REVIEWS \<notin> set (applications p) \<and>
        applications p = filter (\<lambda>a. a \<noteq> REVIEWS) (categories_of (url p) ?es) \<and>
        (set (categories_of (url p) ?es) = {REVIEWS} \<longrightarrow> applications p = [] \<and> is_review p) \<and>
        (\<forall>c. c \<noteq> REVIEWS \<and> set (categories_of (url p) ?es) = {REVIEWS, c} \<longrightarrow>
           applications p = [c] \<and> is_review p)"
  proof
    fix p assume "p \<in> set (d_papers ?d)"
    then have "p \<in> set ?ps" by (simp only: d_papers_aggregate)
    then show "(is_review p \<longleftrightarrow> (\<exists>e\<in>set ?es. e_url e = url p \<and> e_category e = REVIEWS)) \<and>
        REVIEWS \<notin> set (applications p) \<and>
        applications p = filter (\<lambda>a. a \<noteq> REVIEWS) (categories_of (url p) ?es) \<and>
        (set (categories_of (url p) ?es) = {REVIEWS} \<longrightarrow> applications p = [] \<and> is_review p) \<and>
        (\<forall>c. c \<noteq> REVIEWS \<and> set (categories_of (url p) ?es) = {REVIEWS, c} \<longrightarrow>
           applications p = [c] \<and> is_review p)"
      by (rule main)
  qed
  from eq all show ?thesis by (rule exI[of _ ?d, OF conjI])
qed

theorem review_flag_and_label_witness:
  "parse_readme order_a date0 doc0 = Inr d0 \<and>
   REVIEWS \<notin> set (applications (d_papers d0 ! 0)) \<and>
   is_review (d_papers d0 ! 1) \<and>
   (\<exists>e\<in>set (doc_entries doc0). e_url e = str ''v'' \<and> e_category e = REVIEWS)"
proof -
  from review_flag_and_label[of order_a date0 doc0] obtain d where
    d: "parse_readme order_a date0 doc0 = Inr d" and
    a: "\<And>p. p \<in> set (d_papers d) \<Longrightarrow> REVIEWS \<notin> set (applications p)" and
    b: "\<And>p. p \<in> set (d_papers d) \<Longrightarrow>
          is_review p = (\<exists>e\<in>set (doc_entries doc0). e_url e = url p \<and> e_category e = REVIEWS)"
    by blast
  from d have eq: "d = d0" by (simp add: doc0_parse)
  have m0: "d_papers d0 ! 0 \<in> set (d_papers d)" and m1: "d_papers d0 ! 1 \<in> set (d_papers d)"
    by (simp_all add: eq d0_def)
  have u1: "url (d_papers d0 ! 1) = str ''v''" by (simp add: d0_def)
  have r1: "is_review (d_papers d0 ! 1)" by (simp add: d0_def)
  from b[OF m1] r1 have "\<exists>e\<in>set (doc_entries doc0). e_url e = url (d_papers d0 ! 1) \<and> e_category e = REVIEWS"
    by blast
  then have "\<exists>e\<in>set (doc_entries doc0). e_url e = str ''v'' \<and> e_category e = REVIEWS"
    unfolding u1 .
  with a[OF m0] r1 d eq show ?thesis by blast
qed

section \<open>The rename table\<close>

lemma doc1_scan: "scan_document doc1 = Inr raw1"
  by (simp add: eval_scan doc1_def raw1_def)

lemma valid_order_a: "valid_order order_a"
  by (simp add: valid_order_def order_a_def)

lemma valid_order_b: "valid_order order_b"
  by (simp add: valid_order_def order_b_def)

lemma meth_remap_eq: "meth_remap m = (case rename_tag m of None \<Rightarrow> Some None
     | Some r \<Rightarrow> if r = m then None else Some (Some r))"
  by (simp add: meth_remap_def rename_tag_def str_def)

lemma clean_renamed: "clean ms = renamed ms"
proof (induction ms)
  case Nil
  show ?case by (simp add: renamed_def map_filter_simps)
next
  case (Cons m ms)
  then show ?case
    by (cases "rename_tag m") (simp_all add: renamed_def map_filter_simps meth_remap_eq)
qed

lemma set_renamed: "set (renamed ms) = {r. \<exists>m\<in>set ms. rename_tag m = Some r}"
  by (induction ms) (auto simp: renamed_def map_filter_simps split: option.splits)

text \<open>
  C4. Each raw tag of a paper goes through the rename table before the tags are
  deduplicated: the methodologies of a paper of the output are, each once, the tags that
  the table gives for the raw tags of the scan ("Machine Learning" as "Machine learning",
  "Artificial Intelligence" not at all, any other tag as it is). So a paper that lists both
  "Machine Learning" and "Machine learning" ends with "Machine learning" once, and a paper
  that lists "Artificial Intelligence" only ends with no methodology.
\<close>

theorem tags_renamed_before_deduplication:
  assumes "valid_order enum"
  shows "\<exists>raw d. scan_document content = Inr raw \<and> parse_readme enum today content = Inr d \<and>
     length (d_papers d) = length raw \<and>
     (\<forall>i<length raw.
        distinct (methodologies (d_papers d ! i)) \<and>
        set (methodologies (d_papers d ! i)) = set (renamed (methodologies (raw ! i))) \<and>
        (set (methodologies (raw ! i)) = {str ''Machine Learning'', str ''Machine learning''} \<longrightarrow>
           methodologies (d_papers d ! i) = [str ''Machine learning'']) \<and>
        (methodologies (raw ! i) = [str ''Artificial Intelligence''] \<longrightarrow>
           methodologies (d_papers d ! i) = []))"
proof -
  let ?raw = "foldl merge_entry [] (doc_entries content)"
  let ?ps = "map tag_review (map (normalize_paper enum) ?raw)"
  let ?d = "aggregate enum today ?ps"
  from assms have dist: "\<And>xs. distinct (enum xs)" and sets: "\<And>xs. set (enum xs) = set xs"
    by (simp_all add: valid_order_def)
  have scan: "scan_document content = Inr ?raw" by (rule scan_document_refines)
  have parse: "parse_readme enum today content = Inr ?d" by (rule parse_readme_eq)
  have len: "length (d_papers ?d) = length ?raw" by simp
  have each: "distinct (methodologies (d_papers ?d ! i)) \<and>
        set (methodologies (d_papers ?d ! i)) = set (renamed (methodologies (?raw ! i))) \<and>
        (set (methodologies (?raw ! i)) = {str ''Machine Learning'', str ''Machine learning''} \<longrightarrow>
           methodologies (d_papers ?d ! i) = [str ''Machine learning'']) \<and>
        (methodologies (?raw ! i) = [str ''Artificial Intelligence''] \<longrightarrow>
           methodologies (d_papers ?d ! i) = [])" if "i < length ?raw" for i
  proof -
    let ?ms = "methodologies (?raw ! i)"
    have out: "methodologies (d_papers ?d ! i) = enum (renamed ?ms)"
      using that by (simp add: clean_renamed)
    have d1: "distinct (enum (renamed ?ms))" by (rule dist)
    have s1: "set (enum (renamed ?ms)) = set (renamed ?ms)" by (rule sets)
    have both: "enum (renamed ?ms) = [str ''Machine learning'']"
      if "set ?ms = {str ''Machine Learning'', str ''Machine learning''}"
    proof -
      have "set (renamed ?ms) = {str ''Machine learning''}"
        unfolding set_renamed that by (auto simp: rename_tag_def str_def)
      with s1 have "set (enum (renamed ?ms)) = {str ''Machine learning''}" by simp
      with d1 show ?thesis by (rule distinct_singleton)
    qed
    have only: "enum (renamed ?ms) = []" if "?ms = [str ''Artificial Intelligence'']"
    proof -
      have "renamed ?ms = []"
        unfolding that by (simp add: renamed_def map_filter_simps rename_tag_def str_def)
      with s1 show ?thesis by simp
    qed
    show ?thesis unfolding out using d1 s1 both only by blast
  qed
  from scan parse len each show ?thesis by blast
qed

theorem tags_renamed_before_deduplication_witness:
  "valid_order order_a \<and> scan_document doc1 = Inr raw1 \<and>
   (\<exists>d. parse_readme order_a date0 doc1 = Inr d \<and>
        methodologies (d_papers d ! 0) = [str ''Machine learning''] \<and>
        methodologies (d_papers d ! 1) = [])"
proof -
  from tags_renamed_before_deduplication[OF valid_order_a, of doc1 date0] obtain raw d where
    r: "scan_document doc1 = Inr raw" and d: "parse_readme order_a date0 doc1 = Inr d" and
    a: "\<And>i. i < length raw \<Longrightarrow>
         (set (methodologies (raw ! i)) = {str ''Machine Learning'', str ''Machine learning''} \<longrightarrow>
           methodologies (d_papers d ! i) = [str ''Machine learning'']) \<and>
         (methodologies (raw ! i) = [str ''Artificial Intelligence''] \<longrightarrow>
           methodologies (d_papers d ! i) = [])"
    by blast
  from r have raw: "raw = raw1" by (simp add: doc1_scan)
  have l: "0 < length raw" "1 < length raw" by (simp_all add: raw raw1_def)
  have m0: "set (methodologies (raw ! 0)) = {str ''Machine Learning'', str ''Machine learning''}"
    by (simp add: raw raw1_def)
  have m1: "methodologies (raw ! 1) = [str ''Artificial Intelligence'']"
    by (simp add: raw raw1_def)
  from a[OF l(1)] m0 have "methodologies (d_papers d ! 0) = [str ''Machine learning'']" by blast
  moreover from a[OF l(2)] m1 have "methodologies (d_papers d ! 1) = []" by blast
  ultimately show ?thesis using valid_order_a doc1_scan d by blast
qed

section \<open>The aggregate\<close>

lemma update_fresh: "k \<notin> fst ` set al \<Longrightarrow> AList.update k v al = al @ [(k, v)]"
  by (induction al) auto

lemma foldl_update_distinct:
  "distinct ks \<Longrightarrow> foldl (\<lambda>m k. AList.update k (f k) m) [] ks = map (\<lambda>k. (k, f k)) ks"
proof (induction ks rule: rev_induct)
  case Nil
  show ?case by simp
next
  case (snoc k ks)
  then have IH: "foldl (\<lambda>m k. AList.update k (f k) m) [] ks = map (\<lambda>k. (k, f k)) ks"
    and fresh: "k \<notin> set ks" by simp_all
  have "k \<notin> fst ` set (map (\<lambda>k. (k, f k)) ks)" using fresh by (auto simp: image_iff)
  then show ?case by (simp add: IH update_fresh)
qed

lemma map_of_tabulate:
  "map_of (map (\<lambda>k. (k, f k)) ks) k = (if k \<in> set ks then Some (f k) else None)"
  by (induction ks) auto

lemma sort_valid_order:
  assumes "valid_order enum"
  shows "sort (enum xs) = sorted_list_of_set (set xs)"
proof -
  from assms have d: "distinct (enum xs)" and s: "set (enum xs) = set xs"
    by (simp_all add: valid_order_def)
  have "sort (enum xs) = sort (remdups (enum xs))" using d by (simp add: distinct_remdups_id)
  also have "\<dots> = sorted_list_of_set (set (enum xs))"
    by (simp add: sorted_list_of_set_sort_remdups)
  finally show ?thesis by (simp add: s)
qed

lemma valid_order_Nil:
  assumes "valid_order enum"
  shows "enum [] = []"
proof -
  from assms have "set (enum []) = set []" unfolding valid_order_def by blast
  then show ?thesis by simp
qed

lemma matrix_row_eq:
  "distinct meths \<Longrightarrow>
   matrix_row ps meths app = map (\<lambda>meth. (meth, count_papers ps app meth)) meths"
  unfolding matrix_row_def by (rule foldl_update_distinct)

lemma build_matrix_eq:
  "distinct apps \<Longrightarrow>
   build_matrix ps apps meths = map (\<lambda>app. (app, matrix_row ps meths app)) apps"
  unfolding build_matrix_def by (rule foldl_update_distinct)

text \<open>
  C5. For any collection of papers, the applications of the aggregate are the distinct
  categories of the papers' application lists, sorted; its methodologies are the distinct
  non-empty tags of the papers, sorted; and the matrix has one row for every application
  and in it one cell for every methodology (the full cross product, in that order), the
  cell of an application and a methodology being the number of papers that have both,
  zero where none has. The empty collection gives empty lists and an empty matrix, and
  what the parse returns is the aggregate of its papers.
\<close>

theorem aggregate_is_sorted_sets_and_dense_counts:
  assumes "valid_order enum"
  shows "d_applications (aggregate enum today ps) =
           sorted_list_of_set (\<Union>p\<in>set ps. set (applications p)) \<and>
         d_methodologies (aggregate enum today ps) =
           sorted_list_of_set ((\<Union>p\<in>set ps. set (methodologies p)) - {[]}) \<and>
         d_matrix (aggregate enum today ps) =
           map (\<lambda>app. (app,
                  map (\<lambda>meth. (meth,
                         length (filter (\<lambda>p. app \<in> set (applications p) \<and>
                                              meth \<in> set (methodologies p)) ps)))
                      (d_methodologies (aggregate enum today ps))))
               (d_applications (aggregate enum today ps)) \<and>
         (\<forall>app\<in>set (d_applications (aggregate enum today ps)).
            \<forall>meth\<in>set (d_methodologies (aggregate enum today ps)).
              \<exists>row. map_of (d_matrix (aggregate enum today ps)) app = Some row \<and>
                    map_of row meth =
                      Some (length (filter (\<lambda>p. app \<in> set (applications p) \<and>
                                                 meth \<in> set (methodologies p)) ps))) \<and>
         aggregate enum today [] =
           \<lparr>d_papers = [], d_applications = [], d_methodologies = [], d_matrix = [],
            d_lastUpdated = today\<rparr> \<and>
         (\<forall>content d. parse_readme enum today content = Inr d \<longrightarrow>
            d = aggregate enum today (d_papers d))"
proof -
  let ?d = "aggregate enum today ps"
  let ?apps = "sort (enum (concat (map applications ps)))"
  let ?meths = "sort (enum (filter (\<lambda>m. m \<noteq> []) (concat (map methodologies ps))))"
  let ?count = "\<lambda>app meth. length (filter (\<lambda>p. app \<in> set (applications p) \<and>
                                              meth \<in> set (methodologies p)) ps)"
  have da: "d_applications ?d = ?apps" and dm: "d_methodologies ?d = ?meths"
    and dx: "d_matrix ?d = build_matrix ps ?apps ?meths"
    by (simp_all add: aggregate_def Let_def)
  have apps: "?apps = sorted_list_of_set (\<Union>p\<in>set ps. set (applications p))"
    by (simp add: sort_valid_order[OF assms])
  have "set (filter (\<lambda>m. m \<noteq> []) (concat (map methodologies ps))) =
        (\<Union>p\<in>set ps. set (methodologies p)) - {[]}" by auto
  then have meths: "?meths = sorted_list_of_set ((\<Union>p\<in>set ps. set (methodologies p)) - {[]})"
    by (simp only: sort_valid_order[OF assms])
  have dist_a: "distinct ?apps" and dist_m: "distinct ?meths"
    using assms by (simp_all add: valid_order_def)
  have matrix: "build_matrix ps ?apps ?meths =
      map (\<lambda>app. (app, map (\<lambda>meth. (meth, ?count app meth)) ?meths)) ?apps"
    by (simp add: build_matrix_eq[OF dist_a] matrix_row_eq[OF dist_m] count_papers_def)
  have cells: "\<exists>row. map_of (build_matrix ps ?apps ?meths) app = Some row \<and>
                    map_of row meth = Some (?count app meth)"
    if "app \<in> set ?apps" "meth \<in> set ?meths" for app meth
  proof -
    let ?row = "map (\<lambda>meth. (meth, ?count app meth)) ?meths"
    have "map_of (build_matrix ps ?apps ?meths) app = Some ?row"
      unfolding matrix using that(1) by (simp only: map_of_tabulate if_True)
    moreover have "map_of ?row meth = Some (?count app meth)"
      using that(2) by (simp only: map_of_tabulate if_True)
    ultimately show ?thesis by blast
  qed
  have empty: "aggregate enum today [] =
           \<lparr>d_papers = [], d_applications = [], d_methodologies = [], d_matrix = [],
            d_lastUpdated = today\<rparr>"
    by (simp add: aggregate_def Let_def valid_order_Nil[OF assms] build_matrix_def)
  have prog: "d = aggregate enum today (d_papers d)"
    if "parse_readme enum today content = Inr d" for content d
    using that by (auto simp: parse_readme_eq)
  show ?thesis
    unfolding da dm dx
    using apps meths matrix cells empty prog by (intro conjI ballI allI impI) auto
qed

theorem aggregate_is_sorted_sets_and_dense_counts_witness:
  "valid_order order_a \<and>
   sorted_list_of_set (\<Union>p\<in>set (d_papers d0). set (applications p)) = [str ''Oncology''] \<and>
   map (\<lambda>app. (app,
          map (\<lambda>meth. (meth,
                 length (filter (\<lambda>p. app \<in> set (applications p) \<and>
                                      meth \<in> set (methodologies p)) (d_papers d0))))
              (d_methodologies d0)))
       (d_applications d0) =
     [(str ''Oncology'', [(str ''Deep Learning'', 1), (str ''Machine learning'', 1)])]"
proof -
  note t = aggregate_is_sorted_sets_and_dense_counts[OF valid_order_a, of date0 "d_papers d0"]
  from t doc0_parse have eq: "d0 = aggregate order_a date0 (d_papers d0)" by blast
  from t have "d_applications (aggregate order_a date0 (d_papers d0)) =
           sorted_list_of_set (\<Union>p\<in>set (d_papers d0). set (applications p))" by blast
  with eq have a: "sorted_list_of_set (\<Union>p\<in>set (d_papers d0). set (applications p)) =
      d_applications d0" by simp
  from t have "d_matrix (aggregate order_a date0 (d_papers d0)) =
           map (\<lambda>app. (app,
                  map (\<lambda>meth. (meth,
                         length (filter (\<lambda>p. app \<in> set (applications p) \<and>
                                              meth \<in> set (methodologies p)) (d_papers d0))))
                      (d_methodologies (aggregate order_a date0 (d_papers d0)))))
               (d_applications (aggregate order_a date0 (d_papers d0)))" by blast
  with eq have m: "d_matrix d0 =
           map (\<lambda>app. (app,
                  map (\<lambda>meth. (meth,
                         length (filter (\<lambda>p. app \<in> set (applications p) \<and>
                                              meth \<in> set (methodologies p)) (d_papers d0))))
                      (d_methodologies d0)))
               (d_applications d0)" by simp
  have "d_applications d0 = [str ''Oncology'']" by (simp add: d0_def)
  moreover have "d_matrix d0 =
     [(str ''Oncology'', [(str ''Deep Learning'', 1), (str ''Machine learning'', 1)])]"
    by (simp add: d0_def)
  ultimately show ?thesis using valid_order_a a m by simp
qed

section \<open>Unmatched lines, and a heading on the first line\<close>

lemma scan_lines_plain:
  "plain_line l \<Longrightarrow> scan_lines c (l # ls) cur st = scan_lines c ls cur st"
  by (cases cur) (simp_all add: plain_line_def)

lemma scan_lines_plain_block:
  "list_all plain_line block \<Longrightarrow> scan_lines c (block @ ls) cur st = scan_lines c ls cur st"
  by (induction block) (simp_all add: scan_lines_plain del: scan_lines.simps)

lemma parse_readme_total: "\<exists>d. parse_readme enum today content = Inr d"
  by (simp add: parse_readme_eq)

text \<open>
  C8. A line of a section that matches none of the patterns changes nothing: the scan goes
  on with the same pending record and the same collection. A line that is not a title
  line changes nothing while no record is pending, metadata line or not. A record whose
  title line is followed by lines that match no pattern is pending with its defaults: no
  methodology, an empty published string and an empty summary. And the parse of any
  document returns a dictionary: no error is raised.
\<close>

theorem unmatched_lines_change_nothing:
  "(plain_line l \<longrightarrow> scan_lines c (l # ls) cur st = scan_lines c ls cur st) \<and>
   (title_match l = None \<longrightarrow> scan_lines c (l # ls) None st = scan_lines c ls None st) \<and>
   (title_match l = Some (t, u) \<and> flush c cur st = Inr st' \<and> list_all plain_line block \<longrightarrow>
      scan_lines c (l # block) cur st =
        Inr (Some \<lparr>pid = paper_id st', title = t, url = u, methodologies = [],
                    applications = [c], published = [], summary = []\<rparr>, st')) \<and>
   (\<exists>d. parse_readme enum today content = Inr d)"
proof (intro conjI impI)
  assume "plain_line l"
  then show "scan_lines c (l # ls) cur st = scan_lines c ls cur st"
    by (rule scan_lines_plain)
next
  assume "title_match l = None"
  then show "scan_lines c (l # ls) None st = scan_lines c ls None st" by simp
next
  assume a: "title_match l = Some (t, u) \<and> flush c cur st = Inr st' \<and> list_all plain_line block"
  let ?new = "\<lparr>pid = paper_id st', title = t, url = u, methodologies = [],
                 applications = [c], published = [], summary = []\<rparr>"
  from a have "scan_lines c (l # block) cur st = scan_lines c (block @ []) (Some ?new) st'"
    by simp
  also from a have "\<dots> = scan_lines c [] (Some ?new) st'"
    by (intro scan_lines_plain_block) simp
  finally show "scan_lines c (l # block) cur st = Inr (Some ?new, st')" by simp
next
  show "\<exists>d. parse_readme enum today content = Inr d" by (rule parse_readme_total)
qed

theorem unmatched_lines_change_nothing_witness:
  "plain_line (str ''junk'') \<and> plain_line (str ''  - Methodologies: x'') \<and>
   meth_match (str ''  - Methodology: x'') = Some (str ''x'') \<and>
   scan_lines (str ''C'') [str ''- **[A](u)**'', str ''junk'', str ''  - Methodologies: x''] None
       init_state =
     Inr (Some \<lparr>pid = 0, title = str ''A'', url = str ''u'', methodologies = [],
                 applications = [str ''C''], published = [], summary = []\<rparr>, init_state) \<and>
   scan_lines (str ''C'') [str ''  - Methodology: x''] None init_state =
     Inr (None, init_state)"
proof -
  have p: "plain_line (str ''junk'')" "plain_line (str ''  - Methodologies: x'')"
    by (simp_all add: plain_line_def eval_scan)
  have m: "meth_match (str ''  - Methodology: x'') = Some (str ''x'')"
    by (simp add: eval_scan)
  have t: "title_match (str ''- **[A](u)**'') = Some (str ''A'', str ''u'')"
    by (simp add: eval_scan)
  have t': "title_match (str ''  - Methodology: x'') = None"
    by (simp add: eval_scan)
  have f: "flush (str ''C'') None init_state = Inr init_state" by (simp add: flush_def)
  have "paper_id init_state = 0" by (simp add: init_state_def)
  with unmatched_lines_change_nothing[of "str ''- **[A](u)**''" "str ''C''" "[]" None init_state
      "str ''A''" "str ''u''" init_state "[str ''junk'', str ''  - Methodologies: x'']"]
    t f p
  have a: "scan_lines (str ''C'') [str ''- **[A](u)**'', str ''junk'', str ''  - Methodologies: x'']
       None init_state =
     Inr (Some \<lparr>pid = 0, title = str ''A'', url = str ''u'', methodologies = [],
                 applications = [str ''C''], published = [], summary = []\<rparr>, init_state)"
    by simp
  from unmatched_lines_change_nothing[of "str ''  - Methodology: x''" "str ''C''" "[]" None init_state] t'
  have b: "scan_lines (str ''C'') [str ''  - Methodology: x''] None init_state = Inr (None, init_state)"
    by simp
  from p m a b show ?thesis by simp
qed

lemma lit_append: "lit p (p @ r) = Some r"
  by (induction p) simp_all

lemma lit_within:
  "lit p (a @ d # b) = Some r \<Longrightarrow> d \<notin> set p \<Longrightarrow> \<exists>r'. lit p a = Some r'"
proof (induction p arbitrary: a)
  case Nil
  then show ?case by simp
next
  case (Cons x p)
  show ?case
  proof (cases a)
    case Nil
    with Cons.prems show ?thesis by (simp split: if_splits)
  next
    case (Cons y a')
    with Cons.prems have "x = y" "lit p (a' @ d # b) = Some r" "d \<notin> set p"
      by (simp_all split: if_splits)
    with Cons.IH[of a'] Cons show ?thesis by simp
  qed
qed

lemma split_on_no_occurrence:
  "\<not> occurs (d # ds) s \<Longrightarrow> split_on d ds acc s = [acc @ s]"
  by (induction s arbitrary: acc) (auto split: option.splits)

lemma split_on_first_occurrence:
  assumes "\<not> occurs (d # ds) pre" "d \<notin> set ds"
  shows "split_on d ds acc (pre @ (d # ds) @ rest) = (acc @ pre) # split_on d ds [] rest"
  using assms(1)
proof (induction pre arbitrary: acc)
  case Nil
  have "lit (d # ds) ((d # ds) @ rest) = Some rest" by (rule lit_append)
  then show ?case by simp
next
  case (Cons c pre)
  from Cons.prems have no: "lit (d # ds) (c # pre) = None" and rest: "\<not> occurs (d # ds) pre"
    by simp_all
  have "lit (d # ds) (c # pre @ (d # ds) @ rest) = None"
  proof (rule ccontr)
    assume "lit (d # ds) (c # pre @ (d # ds) @ rest) \<noteq> None"
    then obtain r where r: "lit (d # ds) (c # pre @ (d # ds) @ rest) = Some r" by blast
    then have cd: "c = d" and "lit ds (pre @ d # (ds @ rest)) = Some r"
      by (simp_all split: if_splits)
    from lit_within[OF this(2) assms(2)] obtain r' where "lit ds pre = Some r'" by blast
    with cd have "lit (d # ds) (c # pre) = Some r'" by simp
    with no show False by simp
  qed
  then have "split_on d ds acc ((c # pre) @ (d # ds) @ rest) =
             split_on d ds (acc @ [c]) (pre @ (d # ds) @ rest)" by simp
  also have "\<dots> = ((acc @ [c]) @ pre) # split_on d ds [] rest" by (rule Cons.IH[OF rest])
  finally show ?case by simp
qed

lemma parse_readme_sections:
  "tl (split_sections c1) = tl (split_sections c2) \<Longrightarrow>
   parse_readme enum today c1 = parse_readme enum today c2"
  by (simp add: parse_readme_def scan_document_def)

lemma marker_no_newline: "NL \<notin> set (str ''## '')"
  by (simp add: str_def)

text \<open>
  C10. A level-2 heading on the very first line of the document starts no section, since
  the marker of a section begins with a newline: when the marker occurs nowhere in a
  document that begins with \<^verbatim>\<open>"## "\<close>, the parse returns no paper at all; and when
  sections follow, the text from that heading up to the first marker is preamble, so the
  parse returns what it returns for the document without it.
\<close>

theorem heading_on_first_line_is_preamble:
  "(\<not> occurs marker (str ''## '' @ body) \<longrightarrow>
      (\<exists>d. parse_readme enum today (str ''## '' @ body) = Inr d \<and> d_papers d = [])) \<and>
   (\<not> occurs marker (str ''## '' @ body) \<longrightarrow>
      parse_readme enum today (str ''## '' @ body @ marker @ rest) =
      parse_readme enum today (marker @ rest))"
proof (intro conjI impI)
  assume no: "\<not> occurs marker (str ''## '' @ body)"
  then have "\<not> occurs (NL # str ''## '') (str ''## '' @ body)" by (simp add: marker_def)
  then have "split_on NL (str ''## '') [] (str ''## '' @ body) = [[] @ str ''## '' @ body]"
    by (rule split_on_no_occurrence)
  then have "split_sections (str ''## '' @ body) = [str ''## '' @ body]"
    by (simp add: split_sections_def)
  then have "scan_document (str ''## '' @ body) = Inr []"
    by (simp add: scan_document_def init_state_def)
  then have "parse_readme enum today (str ''## '' @ body) = Inr (aggregate enum today [])"
    by (simp add: parse_readme_def)
  then show "\<exists>d. parse_readme enum today (str ''## '' @ body) = Inr d \<and> d_papers d = []"
    by simp
next
  assume no: "\<not> occurs marker (str ''## '' @ body)"
  then have no': "\<not> occurs (NL # str ''## '') (str ''## '' @ body)" by (simp add: marker_def)
  have "split_sections ((str ''## '' @ body) @ marker @ rest) =
        ([] @ str ''## '' @ body) # split_on NL (str ''## '') [] rest"
    unfolding split_sections_def marker_def
    by (rule split_on_first_occurrence[OF no' marker_no_newline])
  moreover have no0: "\<not> occurs (NL # str ''## '') []" by (simp add: str_def)
  have "split_sections ([] @ marker @ rest) = ([] @ []) # split_on NL (str ''## '') [] rest"
    unfolding split_sections_def marker_def
    by (rule split_on_first_occurrence[OF no0 marker_no_newline])
  ultimately have "tl (split_sections (str ''## '' @ body @ marker @ rest)) =
                   tl (split_sections (marker @ rest))" by simp
  then show "parse_readme enum today (str ''## '' @ body @ marker @ rest) =
             parse_readme enum today (marker @ rest)"
    by (rule parse_readme_sections)
qed

lemma doc2_no_marker: "\<not> occurs marker doc2"
  by (simp add: doc2_def marker_def text_of_def str_def)

lemma doc3_scan:
  "scan_document doc3 = Inr
     [\<lparr>pid = 0, title = str ''A'', url = str ''u'', methodologies = [],
        applications = [str ''Oncology''], published = [], summary = []\<rparr>]"
  by (simp add: eval_scan doc3_def)

theorem heading_on_first_line_is_preamble_witness:
  "doc2 = str ''## '' @ text_of [''Oncology'', ''- **[A](u)**''] \<and> doc3 = NL # doc2 \<and>
   \<not> occurs marker doc2 \<and>
   (\<exists>d. parse_readme order_a date0 doc2 = Inr d \<and> d_papers d = []) \<and>
   (\<exists>d. parse_readme order_a date0 doc3 = Inr d \<and> length (d_papers d) = 1)"
proof -
  have e: "doc2 = str ''## '' @ text_of [''Oncology'', ''- **[A](u)**'']"
    by (simp add: doc2_def text_of_def str_def)
  have e3: "doc3 = NL # doc2" by (simp add: doc2_def doc3_def text_of_def str_def)
  from doc2_no_marker have "\<not> occurs marker (str ''## '' @ text_of [''Oncology'', ''- **[A](u)**''])"
    unfolding e .
  with heading_on_first_line_is_preamble[of "text_of [''Oncology'', ''- **[A](u)**'']" order_a date0]
  have "\<exists>d. parse_readme order_a date0 (str ''## '' @ text_of [''Oncology'', ''- **[A](u)**'']) = Inr d
            \<and> d_papers d = []" by blast
  then have a: "\<exists>d. parse_readme order_a date0 doc2 = Inr d \<and> d_papers d = []"
    by (simp only: e)
  have b: "\<exists>d. parse_readme order_a date0 doc3 = Inr d \<and> length (d_papers d) = 1"
    by (simp add: parse_readme_def doc3_scan)
  from e e3 doc2_no_marker a b show ?thesis by blast
qed

section \<open>The iteration order of sets\<close>

lemma doc0_parse_b: "parse_readme order_b date0 doc0 = Inr d0b"
  unfolding parse_readme_def doc0_scan
  by (simp add: str_def order_b_def aggregate_def normalize_paper_def tag_review_def
        meth_remap_def build_matrix_def matrix_row_def count_papers_def Let_def d0b_def)

lemmas eval_json =
  json_dumps_def json_paper_def json_dict_def json_list_def json_str_def json_char_def
  json_bool_def json_nat.simps hex4_def hex_digit_def

lemma d0_json:
  "json_dumps d0 = str (''{\"papers\":[{\"id\":0,\"title\":\"A\",\"url\":\"u\",'' @
     ''\"methodologies\":[\"Machine learning\",\"Deep Learning\"],'' @
     ''\"applications\":[\"Oncology\"],\"published\":\"2023Jan15\",\"summary\":\"\",'' @
     ''\"is_review\":true},{\"id\":1,\"title\":\"B\",\"url\":\"v\",\"methodologies\":[],'' @
     ''\"applications\":[],\"published\":\"\",\"summary\":\"s\",\"is_review\":true}],'' @
     ''\"applications\":[\"Oncology\"],\"methodologies\":[\"Deep Learning\",\"Machine learning\"],'' @
     ''\"matrix\":{\"Oncology\":{\"Deep Learning\":1,\"Machine learning\":1}},'' @
     ''\"lastUpdated\":\"2024-05-01\"}'')"
  by (simp add: eval_json d0_def date0_def str_def)

lemma d0b_json:
  "json_dumps d0b = str (''{\"papers\":[{\"id\":0,\"title\":\"A\",\"url\":\"u\",'' @
     ''\"methodologies\":[\"Deep Learning\",\"Machine learning\"],'' @
     ''\"applications\":[\"Oncology\"],\"published\":\"2023Jan15\",\"summary\":\"\",'' @
     ''\"is_review\":true},{\"id\":1,\"title\":\"B\",\"url\":\"v\",\"methodologies\":[],'' @
     ''\"applications\":[],\"published\":\"\",\"summary\":\"s\",\"is_review\":true}],'' @
     ''\"applications\":[\"Oncology\"],\"methodologies\":[\"Deep Learning\",\"Machine learning\"],'' @
     ''\"matrix\":{\"Oncology\":{\"Deep Learning\":1,\"Machine learning\":1}},'' @
     ''\"lastUpdated\":\"2024-05-01\"}'')"
  by (simp add: eval_json d0b_def date0_def str_def)

lemma count_papers_independent:
  assumes "valid_order e1" "valid_order e2"
  shows "count_papers (map tag_review (map (normalize_paper e1) R)) app meth =
         count_papers (map tag_review (map (normalize_paper e2) R)) app meth"
proof -
  from assms have "\<And>xs. set (e1 xs) = set (e2 xs)" by (simp add: valid_order_def)
  then show ?thesis by (simp add: count_papers_def filter_map comp_def)
qed

lemma aggregate_independent:
  fixes today :: pystr and R :: "paper list"
  assumes "valid_order e1" "valid_order e2"
  defines "d1 \<equiv> aggregate e1 today (map tag_review (map (normalize_paper e1) R))"
      and "d2 \<equiv> aggregate e2 today (map tag_review (map (normalize_paper e2) R))"
  shows "d_applications d1 = d_applications d2 \<and> d_methodologies d1 = d_methodologies d2 \<and>
         d_matrix d1 = d_matrix d2 \<and> d_lastUpdated d1 = d_lastUpdated d2"
proof -
  let ?ps1 = "map tag_review (map (normalize_paper e1) R)"
  let ?ps2 = "map tag_review (map (normalize_paper e2) R)"
  from assms(1,2) have sets: "\<And>xs. set (e1 xs) = set xs" "\<And>xs. set (e2 xs) = set xs"
    by (simp_all add: valid_order_def)
  have apps: "map applications ?ps1 = map applications ?ps2" by (simp add: comp_def)
  have a: "d_applications d1 = d_applications d2"
    unfolding d1_def d2_def
    by (simp add: aggregate_def Let_def sort_valid_order[OF assms(1)]
          sort_valid_order[OF assms(2)] comp_def)
  have "set (filter (\<lambda>m. m \<noteq> []) (concat (map methodologies ?ps1))) =
        set (filter (\<lambda>m. m \<noteq> []) (concat (map methodologies ?ps2)))"
    by (simp add: comp_def sets)
  then have m: "d_methodologies d1 = d_methodologies d2"
    unfolding d1_def d2_def
    by (simp add: aggregate_def Let_def sort_valid_order[OF assms(1)]
          sort_valid_order[OF assms(2)] del: set_filter set_concat)
  have rows: "matrix_row ?ps1 meths app = matrix_row ?ps2 meths app" for meths app
    unfolding matrix_row_def by (simp only: count_papers_independent[OF assms(1,2)])
  have mx: "build_matrix ?ps1 apps meths = build_matrix ?ps2 apps meths" for apps meths
    unfolding build_matrix_def by (simp only: rows)
  have x: "d_matrix d1 = d_matrix d2"
  proof -
    have "d_matrix d1 = build_matrix ?ps1 (d_applications d1) (d_methodologies d1)"
      unfolding d1_def by (simp add: aggregate_def Let_def)
    moreover have "d_matrix d2 = build_matrix ?ps2 (d_applications d2) (d_methodologies d2)"
      unfolding d2_def by (simp add: aggregate_def Let_def)
    ultimately show ?thesis by (simp only: a m mx)
  qed
  have l: "d_lastUpdated d1 = d_lastUpdated d2"
    unfolding d1_def d2_def by (simp add: aggregate_def Let_def)
  from a m x l show ?thesis by simp
qed

text \<open>
  C6, as the specification states it, fails: the methodologies of a paper come out of
  \<^verbatim>\<open>list(set(cleaned))\<close>, in the iteration order of a set of strings, which changes
  with the hash seed of the run. On \<open>doc0\<close> two iteration orders give two different
  serialised datasets, so two different pages whatever the template.
\<close>

theorem output_depends_on_set_order:
  "valid_order order_a \<and> valid_order order_b \<and>
   parse_readme order_a date0 doc0 = Inr d0 \<and> parse_readme order_b date0 doc0 = Inr d0b \<and>
   json_dumps d0 \<noteq> json_dumps d0b \<and>
   (\<forall>tpl_head tpl_tail.
      main order_a date0 tpl_head tpl_tail doc0 \<noteq>
      main order_b date0 tpl_head tpl_tail doc0)"
proof -
  have ne: "json_dumps d0 \<noteq> json_dumps d0b"
    unfolding d0_json d0b_json by (simp add: str_def)
  then have "\<forall>tpl_head tpl_tail.
      main order_a date0 tpl_head tpl_tail doc0 \<noteq>
      main order_b date0 tpl_head tpl_tail doc0"
    by (simp add: main_def doc0_parse doc0_parse_b generate_html_def)
  with ne valid_order_a valid_order_b doc0_parse doc0_parse_b show ?thesis by blast
qed

text \<open>
  C6, amended. For a fixed current date, the output is determined by the text of the
  document up to the order of the tags in the methodologies of each paper: under any two
  iteration orders of sets the parse returns the same applications, the same
  methodologies, the same matrix and the same date, and papers that agree one by one in
  every field but the methodologies, which hold the same tags, each once.
\<close>

theorem output_determined_up_to_tag_order:
  assumes "valid_order e1" "valid_order e2"
  shows "\<exists>d1 d2. parse_readme e1 today content = Inr d1 \<and> parse_readme e2 today content = Inr d2 \<and>
     d_applications d1 = d_applications d2 \<and> d_methodologies d1 = d_methodologies d2 \<and>
     d_matrix d1 = d_matrix d2 \<and> d_lastUpdated d1 = d_lastUpdated d2 \<and>
     length (d_papers d1) = length (d_papers d2) \<and>
     (\<forall>i<length (d_papers d1).
        pid (d_papers d1 ! i) = pid (d_papers d2 ! i) \<and>
        title (d_papers d1 ! i) = title (d_papers d2 ! i) \<and>
        url (d_papers d1 ! i) = url (d_papers d2 ! i) \<and>
        applications (d_papers d1 ! i) = applications (d_papers d2 ! i) \<and>
        published (d_papers d1 ! i) = published (d_papers d2 ! i) \<and>
        summary (d_papers d1 ! i) = summary (d_papers d2 ! i) \<and>
        is_review (d_papers d1 ! i) = is_review (d_papers d2 ! i) \<and>
        distinct (methodologies (d_papers d1 ! i)) \<and>
        distinct (methodologies (d_papers d2 ! i)) \<and>
        set (methodologies (d_papers d1 ! i)) = set (methodologies (d_papers d2 ! i)))"
proof -
  let ?R = "foldl merge_entry [] (doc_entries content)"
  let ?ps1 = "map tag_review (map (normalize_paper e1) ?R)"
  let ?ps2 = "map tag_review (map (normalize_paper e2) ?R)"
  let ?d1 = "aggregate e1 today ?ps1"
  let ?d2 = "aggregate e2 today ?ps2"
  from assms have v: "\<And>xs. distinct (e1 xs)" "\<And>xs. distinct (e2 xs)"
    "\<And>xs. set (e1 xs) = set xs" "\<And>xs. set (e2 xs) = set xs"
    by (simp_all add: valid_order_def)
  have p1: "parse_readme e1 today content = Inr ?d1" and p2: "parse_readme e2 today content = Inr ?d2"
    by (rule parse_readme_eq)+
  note agg = aggregate_independent[OF assms, of today ?R]
  have len: "length (d_papers ?d1) = length (d_papers ?d2)" by simp
  have each: "pid (d_papers ?d1 ! i) = pid (d_papers ?d2 ! i) \<and>
        title (d_papers ?d1 ! i) = title (d_papers ?d2 ! i) \<and>
        url (d_papers ?d1 ! i) = url (d_papers ?d2 ! i) \<and>
        applications (d_papers ?d1 ! i) = applications (d_papers ?d2 ! i) \<and>
        published (d_papers ?d1 ! i) = published (d_papers ?d2 ! i) \<and>
        summary (d_papers ?d1 ! i) = summary (d_papers ?d2 ! i) \<and>
        is_review (d_papers ?d1 ! i) = is_review (d_papers ?d2 ! i) \<and>
        distinct (methodologies (d_papers ?d1 ! i)) \<and>
        distinct (methodologies (d_papers ?d2 ! i)) \<and>
        set (methodologies (d_papers ?d1 ! i)) = set (methodologies (d_papers ?d2 ! i))"
    if "i < length (d_papers ?d1)" for i
  proof -
    from that have i: "i < length ?R" by simp
    then show ?thesis by (simp add: v)
  qed
  from p1 p2 agg len each show ?thesis by blast
qed

theorem output_determined_up_to_tag_order_witness:
  "valid_order order_a \<and> valid_order order_b \<and>
   parse_readme order_a date0 doc0 = Inr d0 \<and> parse_readme order_b date0 doc0 = Inr d0b \<and>
   d_matrix d0 = d_matrix d0b \<and>
   set (methodologies (d_papers d0 ! 0)) = set (methodologies (d_papers d0b ! 0)) \<and>
   methodologies (d_papers d0 ! 0) \<noteq> methodologies (d_papers d0b ! 0)"
proof -
  from output_determined_up_to_tag_order[OF valid_order_a valid_order_b, of date0 doc0]
  obtain d1 d2 where
    d: "parse_readme order_a date0 doc0 = Inr d1" "parse_readme order_b date0 doc0 = Inr d2" and
    m: "d_matrix d1 = d_matrix d2" and
    e: "\<And>i. i < length (d_papers d1) \<Longrightarrow>
          set (methodologies (d_papers d1 ! i)) = set (methodologies (d_papers d2 ! i))"
    by blast
  from d have eq: "d1 = d0" "d2 = d0b" by (simp_all add: doc0_parse doc0_parse_b)
  have "0 < length (d_papers d1)" by (simp add: eq d0_def)
  from e[OF this] have s: "set (methodologies (d_papers d0 ! 0)) = set (methodologies (d_papers d0b ! 0))"
    by (simp only: eq)
  have ne: "methodologies (d_papers d0 ! 0) \<noteq> methodologies (d_papers d0b ! 0)"
    by (simp add: d0_def d0b_def str_def)
  from valid_order_a valid_order_b doc0_parse doc0_parse_b m s ne show ?thesis
    by (simp add: eq)
qed

section \<open>The serialised text determines the dataset\<close>

lemma unhex_digit_hex: "n < 16 \<Longrightarrow> unhex_digit (hex_digit n) = n"
  by (simp add: unhex_digit_def hex_digit_def)

lemma length_hex4 [simp]: "length (hex4 n) = 4"
  by (simp add: hex4_def)

lemma horner3:
  fixes n :: nat
  shows "n = 16 * q1 + r0 \<Longrightarrow> q1 = 16 * q2 + r1 \<Longrightarrow> q2 = 16 * q3 + r2 \<Longrightarrow>
         16 * (16 * (16 * q3 + r2) + r1) + r0 = n"
  by simp

lemma hex_value:
  fixes n :: nat
  assumes "n < 65536"
  shows "16 * (16 * (16 * (n div 4096 mod 16) + n div 256 mod 16) + n div 16 mod 16) + n mod 16 = n"
proof -
  have a: "n div 16 div 16 = n div 256" "n div 256 div 16 = n div 4096"
    by (simp_all add: div_mult2_eq[symmetric])
  have t: "n div 4096 mod 16 = n div 4096" using assms by simp
  have 1: "n = 16 * (n div 16) + n mod 16" by simp
  have "n div 16 = 16 * (n div 16 div 16) + n div 16 mod 16" by simp
  then have 2: "n div 16 = 16 * (n div 256) + n div 16 mod 16" unfolding a .
  have "n div 256 = 16 * (n div 256 div 16) + n div 256 mod 16" by simp
  then have 3: "n div 256 = 16 * (n div 4096) + n div 256 mod 16" unfolding a .
  show ?thesis unfolding t by (rule horner3[OF 1 2 3])
qed

lemma unhex4_hex4: "n < 65536 \<Longrightarrow> unhex4 (hex4 n @ x) = n"
proof -
  assume n: "n < 65536"
  have d: "n div 4096 mod 16 < 16" "n div 256 mod 16 < 16" "n div 16 mod 16 < 16" "n mod 16 < 16"
    by simp_all
  have "unhex4 (hex4 n @ x) =
        16 * (16 * (16 * (n div 4096 mod 16) + n div 256 mod 16) + n div 16 mod 16) + n mod 16"
    by (simp add: unhex4_def hex4_def unhex_digit_hex[OF d(1)] unhex_digit_hex[OF d(2)]
          unhex_digit_hex[OF d(3)] unhex_digit_hex[OF d(4)])
  also have "\<dots> = n" by (rule hex_value[OF n])
  finally show ?thesis .
qed

lemma unescape_u:
  "unescape ([92, 117] @ hex4 n @ x) =
     (if 55296 \<le> unhex4 (hex4 n @ x) \<and> unhex4 (hex4 n @ x) < 56320
      then Some (65536 + (unhex4 (hex4 n @ x) - 55296) * 1024 + (unhex4 (drop 2 x) - 56320),
                 drop 6 x)
      else Some (unhex4 (hex4 n @ x), x))"
  by (simp add: unescape_def Let_def)

lemma unescape_json_char:
  assumes "valid_char c"
  shows "unescape (json_char c @ x) = Some (c, x)"
proof (cases "c < 65536")
  case True
  note bmp = this
  show ?thesis
  proof (cases "c = 34 \<or> c = 92 \<or> c = 10 \<or> c = 13 \<or> c = 9 \<or> c = 8 \<or> c = 12")
    case True
    then show ?thesis by (auto simp: json_char_def unescape_def)
  next
    case False
    note plain = this
    show ?thesis
    proof (cases "32 \<le> c \<and> c \<le> 126")
      case True
      with plain show ?thesis by (simp add: json_char_def unescape_def)
    next
      case False
      with plain bmp have j: "json_char c = [92, 117] @ hex4 c" by (simp add: json_char_def)
      have u: "unhex4 (hex4 c @ x) = c" by (rule unhex4_hex4[OF bmp])
      have "\<not> (55296 \<le> c \<and> c < 56320)" using assms bmp unfolding valid_char_def by linarith
      then show ?thesis unfolding j append_assoc unescape_u u by simp
    qed
  qed
next
  case False
  define m where "m = c - 65536"
  define hi where "hi = 55296 + m div 1024 mod 1024"
  define lo where "lo = 56320 + m mod 1024"
  from False have j: "json_char c = [92, 117] @ hex4 hi @ [92, 117] @ hex4 lo"
    by (simp add: json_char_def hi_def lo_def m_def)
  from False assms have m: "m < 1048576" "c = 65536 + m"
    by (simp_all add: valid_char_def m_def)
  have hi: "hi < 65536" "55296 \<le> hi" "hi < 56320" by (simp_all add: hi_def)
  have lo: "lo < 65536" by (simp add: lo_def)
  have "m div 1024 mod 1024 = m div 1024" using m(1) by simp
  then have "(hi - 55296) * 1024 + (lo - 56320) = m div 1024 * 1024 + m mod 1024"
    by (simp add: hi_def lo_def)
  also have "\<dots> = m" by simp
  finally have dec: "65536 + (hi - 55296) * 1024 + (lo - 56320) = c" using m(2) by simp
  have u1: "unhex4 (hex4 hi @ [92, 117] @ hex4 lo @ x) = hi" by (rule unhex4_hex4[OF hi(1)])
  have u2: "unhex4 (drop 2 ([92, 117] @ hex4 lo @ x)) = lo"
    using unhex4_hex4[OF lo, of x] by simp
  have d2: "drop 6 ([92, 117] @ hex4 lo @ x) = x" by simp
  have "unescape (json_char c @ x) = unescape ([92, 117] @ hex4 hi @ ([92, 117] @ hex4 lo @ x))"
    by (simp add: j)
  also have "\<dots> = Some (c, x)"
    unfolding unescape_u u1 u2 d2 using hi dec by simp
  finally show ?thesis .
qed

lemma unescape_quote: "unescape (34 # x) = Some (34, x)"
  by (simp add: unescape_def)

lemma json_char_not_quote: "json_char c @ z \<noteq> 34 # x"
  by (simp add: json_char_def)

lemma str_body_inj:
  assumes "valid_str s1" "valid_str s2"
    and "concat (map json_char s1) @ 34 # x = concat (map json_char s2) @ 34 # y"
  shows "s1 = s2 \<and> x = y"
  using assms
proof (induction s1 arbitrary: s2)
  case Nil
  show ?case
  proof (cases s2)
    case Nil
    with Nil.prems show ?thesis by simp
  next
    case (Cons c s2')
    with Nil.prems have "json_char c @ (concat (map json_char s2') @ 34 # y) = 34 # x" by simp
    then show ?thesis by (simp add: json_char_not_quote)
  qed
next
  case (Cons c1 s1)
  show ?case
  proof (cases s2)
    case Nil
    with Cons.prems have "json_char c1 @ (concat (map json_char s1) @ 34 # x) = 34 # y" by simp
    then show ?thesis by (simp add: json_char_not_quote)
  next
    case (Cons c2 s2')
    from Cons.prems(1) have v1: "valid_char c1" "valid_str s1" by (simp_all add: valid_str_def)
    from Cons.prems(2) Cons have v2: "valid_char c2" "valid_str s2'" by (simp_all add: valid_str_def)
    let ?r1 = "concat (map json_char s1) @ 34 # x"
    let ?r2 = "concat (map json_char s2') @ 34 # y"
    from Cons.prems(3) Cons have "json_char c1 @ ?r1 = json_char c2 @ ?r2" by simp
    then have "unescape (json_char c1 @ ?r1) = unescape (json_char c2 @ ?r2)" by simp
    then have "c1 = c2 \<and> ?r1 = ?r2"
      by (simp only: unescape_json_char[OF v1(1)] unescape_json_char[OF v2(1)] option.inject prod.inject)
    with Cons.IH[OF v1(2) v2(2)] Cons show ?thesis by simp
  qed
qed

lemma json_str_inj:
  assumes "valid_str s1" "valid_str s2" "json_str s1 @ x = json_str s2 @ y"
  shows "s1 = s2 \<and> x = y"
  using str_body_inj[OF assms(1,2), of x y] assms(3) by (simp add: json_str_def)

lemma json_nat_digits: "json_nat n \<noteq> [] \<and> list_all is_digit (json_nat n)"
proof (induction n rule: json_nat.induct)
  case (1 n)
  show ?case
  proof (cases "n < 10")
    case True
    then show ?thesis by (simp add: json_nat.simps[of n] is_digit_def)
  next
    case False
    with 1 show ?thesis by (simp add: json_nat.simps[of n] is_digit_def)
  qed
qed

lemma undigits_snoc: "undigits (ds @ [d]) = 10 * undigits ds + (d - 48)"
  by (simp add: undigits_def)

lemma undigits_json_nat: "undigits (json_nat n) = n"
proof (induction n rule: json_nat.induct)
  case (1 n)
  show ?case
  proof (cases "n < 10")
    case True
    then show ?thesis by (simp add: json_nat.simps[of n] undigits_def)
  next
    case False
    with 1 have "undigits (json_nat (n div 10)) = n div 10" by simp
    with False show ?thesis by (simp add: json_nat.simps[of n] undigits_snoc)
  qed
qed

lemma takeWhile_json_nat:
  assumes "no_digit_first x"
  shows "takeWhile is_digit (json_nat n @ x) = json_nat n"
proof -
  from json_nat_digits[of n] have "\<forall>c\<in>set (json_nat n). is_digit c" by (simp add: list_all_iff)
  then have "takeWhile is_digit (json_nat n @ x) = json_nat n @ takeWhile is_digit x"
    by (simp add: takeWhile_append2)
  moreover from assms have "takeWhile is_digit x = []"
    by (cases x) (simp_all add: no_digit_first_def)
  ultimately show ?thesis by simp
qed

lemma json_nat_inj:
  assumes "json_nat n1 @ x = json_nat n2 @ y" "no_digit_first x" "no_digit_first y"
  shows "n1 = n2 \<and> x = y"
proof -
  from assms(1) have "takeWhile is_digit (json_nat n1 @ x) = takeWhile is_digit (json_nat n2 @ y)"
    by simp
  then have e: "json_nat n1 = json_nat n2"
    by (simp only: takeWhile_json_nat[OF assms(2)] takeWhile_json_nat[OF assms(3)])
  then have "undigits (json_nat n1) = undigits (json_nat n2)" by simp
  then have "n1 = n2" by (simp only: undigits_json_nat)
  with assms(1) show ?thesis by simp
qed

lemma delimited_items_tail: "delimited close (items_tail enc close bs z)"
  by (cases bs) (auto simp: delimited_def)

lemma join_items:
  "join [44] (map enc (a # as)) @ close # z = enc a @ items_tail enc close as z"
  by (induction as arbitrary: a) simp_all

lemma items_tail_inj:
  assumes sd: "\<And>a b u v. \<lbrakk>a \<in> A; b \<in> A; enc a @ u = enc b @ v; delimited close u; delimited close v\<rbrakk>
                 \<Longrightarrow> a = b \<and> u = v"
    and "close \<noteq> 44" "set as \<subseteq> A" "set bs \<subseteq> A"
    and "items_tail enc close as x = items_tail enc close bs y"
  shows "as = bs \<and> x = y"
  using assms(3-)
proof (induction as arbitrary: bs)
  case Nil
  with assms(2) show ?case by (cases bs) simp_all
next
  case (Cons a as)
  show ?case
  proof (cases bs)
    case Nil
    with Cons.prems assms(2) show ?thesis by simp
  next
    case (Cons b bs')
    with Cons.prems have e: "enc a @ items_tail enc close as x = enc b @ items_tail enc close bs' y"
      and m: "a \<in> A" "b \<in> A" "set as \<subseteq> A" "set bs' \<subseteq> A" by simp_all
    from sd[OF m(1,2) e delimited_items_tail delimited_items_tail]
    have ab: "a = b" and t: "items_tail enc close as x = items_tail enc close bs' y"
      by simp_all
    from Cons.IH[OF m(3,4) t] show ?thesis unfolding Cons ab by simp
  qed
qed

lemma joined_inj:
  assumes sd: "\<And>a b u v. \<lbrakk>a \<in> A; b \<in> A; enc a @ u = enc b @ v; delimited close u; delimited close v\<rbrakk>
                 \<Longrightarrow> a = b \<and> u = v"
    and nc: "\<And>a u z. a \<in> A \<Longrightarrow> enc a @ u \<noteq> close # z"
    and "close \<noteq> 44" "set as \<subseteq> A" "set bs \<subseteq> A"
    and "join [44] (map enc as) @ close # x = join [44] (map enc bs) @ close # y"
  shows "as = bs \<and> x = y"
proof (cases as)
  case Nil
  show ?thesis
  proof (cases bs)
    case Nil
    with \<open>as = []\<close> assms(6) show ?thesis by simp
  next
    case (Cons b bs')
    with assms(5) have "b \<in> A" by simp
    have "join [44] (map enc (b # bs')) @ close # y = enc b @ items_tail enc close bs' y"
      by (rule join_items)
    with assms(6) Cons \<open>as = []\<close> have "enc b @ items_tail enc close bs' y = close # x" by simp
    with nc[OF \<open>b \<in> A\<close>] show ?thesis by blast
  qed
next
  case (Cons a as')
  note as = this
  with assms(4) have a: "a \<in> A" "set as' \<subseteq> A" by simp_all
  show ?thesis
  proof (cases bs)
    case Nil
    have "join [44] (map enc (a # as')) @ close # x = enc a @ items_tail enc close as' x"
      by (rule join_items)
    with assms(6) Nil as have "enc a @ items_tail enc close as' x = close # y" by simp
    with nc[OF a(1)] show ?thesis by blast
  next
    case (Cons b bs')
    with assms(5) have b: "b \<in> A" "set bs' \<subseteq> A" by simp_all
    from assms(6) as Cons
    have e: "enc a @ items_tail enc close as' x = enc b @ items_tail enc close bs' y"
      by (simp only: join_items)
    from sd[OF a(1) b(1) e delimited_items_tail delimited_items_tail]
    have ab: "a = b" and t: "items_tail enc close as' x = items_tail enc close bs' y"
      by simp_all
    have "as' = bs' \<and> x = y"
      by (rule items_tail_inj[of A enc close, OF sd assms(3) a(2) b(2) t])
    then show ?thesis unfolding as Cons ab by simp
  qed
qed

lemma json_str_not_close: "json_str a @ u \<noteq> 93 # z" "json_str a @ u \<noteq> 125 # z"
  by (simp_all add: json_str_def)

lemma json_strs_inj:
  assumes "list_all valid_str xs" "list_all valid_str ys"
    and "json_list (map json_str xs) @ x = json_list (map json_str ys) @ y"
  shows "xs = ys \<and> x = y"
proof (rule joined_inj[where A = "{s. valid_str s}" and enc = json_str and close = 93])
  fix a b u v
  assume "a \<in> {s. valid_str s}" "b \<in> {s. valid_str s}" "json_str a @ u = json_str b @ v"
  then show "a = b \<and> u = v" using json_str_inj[of a b u v] by simp
next
  fix a u z
  show "json_str a @ u \<noteq> 93 # z" by (rule json_str_not_close)
next
  show "(93::nat) \<noteq> 44" by simp
  show "set xs \<subseteq> {s. valid_str s}" using assms(1) by (auto simp: list_all_iff)
  show "set ys \<subseteq> {s. valid_str s}" using assms(2) by (auto simp: list_all_iff)
  show "join [44] (map json_str xs) @ 93 # x = join [44] (map json_str ys) @ 93 # y"
    using assms(3) by (simp add: json_list_def)
qed

lemma json_cell_eq: "json_cell = (\<lambda>x. json_str (fst x) @ 58 # json_nat (snd x))"
  by (simp add: fun_eq_iff json_cell_def)

lemma json_matrix_item_eq: "json_matrix_item = (\<lambda>x. json_str (fst x) @ 58 # json_row (snd x))"
  by (simp add: fun_eq_iff json_matrix_item_def)

lemma json_row_cells: "json_row row = [123] @ join [44] (map json_cell row) @ [125]"
  by (simp add: json_row_def json_dict_def json_cell_eq comp_def case_prod_beta)

lemma json_matrix_items:
  "json_dict (map (\<lambda>(app, row). (app, json_dict (map (\<lambda>(meth, n). (meth, json_nat n)) row))) mx) =
   [123] @ join [44] (map json_matrix_item mx) @ [125]"
  by (simp add: json_dict_def json_matrix_item_eq json_row_def comp_def case_prod_beta)

lemma delimited_no_digit: "delimited 125 u \<Longrightarrow> no_digit_first u"
  by (auto simp: delimited_def no_digit_first_def is_digit_def)

lemma json_row_inj:
  assumes "wf_row r1" "wf_row r2" "json_row r1 @ x = json_row r2 @ y"
  shows "r1 = r2 \<and> x = y"
proof (rule joined_inj[where A = "{kv. valid_str (fst kv)}" and enc = json_cell and close = 125])
  fix a b :: "pystr \<times> nat" and u v
  assume a: "a \<in> {kv. valid_str (fst kv)}" "b \<in> {kv. valid_str (fst kv)}"
    and e: "json_cell a @ u = json_cell b @ v" and d: "delimited 125 u" "delimited 125 v"
  from e have "json_str (fst a) @ (58 # json_nat (snd a) @ u) = json_str (fst b) @ (58 # json_nat (snd b) @ v)"
    by (simp add: json_cell_def)
  with json_str_inj[of "fst a" "fst b"] a
  have k: "fst a = fst b" and "json_nat (snd a) @ u = json_nat (snd b) @ v" by auto
  from json_nat_inj[OF this(2) delimited_no_digit[OF d(1)] delimited_no_digit[OF d(2)]]
  have "snd a = snd b" "u = v" by simp_all
  with k show "a = b \<and> u = v" by (simp add: prod_eq_iff)
next
  fix a :: "pystr \<times> nat" and u z
  show "json_cell a @ u \<noteq> 125 # z" by (simp add: json_cell_def json_str_not_close)
next
  show "(125::nat) \<noteq> 44" by simp
  show "set r1 \<subseteq> {kv. valid_str (fst kv)}" using assms(1) by (auto simp: wf_row_def list_all_iff)
  show "set r2 \<subseteq> {kv. valid_str (fst kv)}" using assms(2) by (auto simp: wf_row_def list_all_iff)
  show "join [44] (map json_cell r1) @ 125 # x = join [44] (map json_cell r2) @ 125 # y"
    using assms(3) by (simp add: json_row_cells)
qed

lemma json_matrix_inj:
  assumes "list_all valid_str (map fst m1)" "list_all wf_row (map snd m1)"
    and "list_all valid_str (map fst m2)" "list_all wf_row (map snd m2)"
    and "[123] @ join [44] (map json_matrix_item m1) @ [125] @ x =
         [123] @ join [44] (map json_matrix_item m2) @ [125] @ y"
  shows "m1 = m2 \<and> x = y"
proof (rule joined_inj[where A = "{kv. valid_str (fst kv) \<and> wf_row (snd kv)}"
      and enc = json_matrix_item and close = 125])
  fix a b :: "pystr \<times> (pystr \<times> nat) list" and u v
  assume a: "a \<in> {kv. valid_str (fst kv) \<and> wf_row (snd kv)}"
    "b \<in> {kv. valid_str (fst kv) \<and> wf_row (snd kv)}"
    and e: "json_matrix_item a @ u = json_matrix_item b @ v"
  from e have "json_str (fst a) @ (58 # json_row (snd a) @ u) = json_str (fst b) @ (58 # json_row (snd b) @ v)"
    by (simp add: json_matrix_item_def)
  with json_str_inj[of "fst a" "fst b"] a
  have k: "fst a = fst b" and "json_row (snd a) @ u = json_row (snd b) @ v" by auto
  with json_row_inj[of "snd a" "snd b" u v] a have "snd a = snd b" "u = v" by auto
  with k show "a = b \<and> u = v" by (simp add: prod_eq_iff)
next
  fix a :: "pystr \<times> (pystr \<times> nat) list" and u z
  show "json_matrix_item a @ u \<noteq> 125 # z" by (simp add: json_matrix_item_def json_str_not_close)
next
  show "(125::nat) \<noteq> 44" by simp
  show "set m1 \<subseteq> {kv. valid_str (fst kv) \<and> wf_row (snd kv)}"
    using assms(1,2) by (auto simp: list_all_iff)
  show "set m2 \<subseteq> {kv. valid_str (fst kv) \<and> wf_row (snd kv)}"
    using assms(3,4) by (auto simp: list_all_iff)
  show "join [44] (map json_matrix_item m1) @ 125 # x = join [44] (map json_matrix_item m2) @ 125 # y"
    using assms(5) by simp
qed

lemma no_digit_comma: "no_digit_first (44 # u)"
  by (simp add: no_digit_first_def is_digit_def)

lemma json_bool_inj: "json_bool b1 @ 125 # x = json_bool b2 @ 125 # y \<Longrightarrow> b1 = b2 \<and> x = y"
  by (cases b1; cases b2) (simp_all add: json_bool_def str_def)

lemma json_paper_flat:
  "json_paper p @ x =
     123 # json_str (str ''id'') @ 58 # json_nat (pid p) @
     44 # json_str (str ''title'') @ 58 # json_str (title p) @
     44 # json_str (str ''url'') @ 58 # json_str (url p) @
     44 # json_str (str ''methodologies'') @ 58 # json_list (map json_str (methodologies p)) @
     44 # json_str (str ''applications'') @ 58 # json_list (map json_str (applications p)) @
     44 # json_str (str ''published'') @ 58 # json_str (published p) @
     44 # json_str (str ''summary'') @ 58 # json_str (summary p) @
     44 # json_str (str ''is_review'') @ 58 # json_bool (is_review p) @ 125 # x"
  by (simp add: json_paper_def json_dict_def)

lemma json_paper_inj:
  assumes "wf_paper p1" "wf_paper p2" "json_paper p1 @ x = json_paper p2 @ y"
  shows "p1 = p2 \<and> x = y"
proof -
  let ?t7 = "\<lambda>p x. json_str (str ''is_review'') @ 58 # json_bool (is_review p) @ 125 # x"
  let ?t6 = "\<lambda>p x. json_str (str ''summary'') @ 58 # json_str (summary p) @ 44 # ?t7 p x"
  let ?t5 = "\<lambda>p x. json_str (str ''published'') @ 58 # json_str (published p) @ 44 # ?t6 p x"
  let ?t4 = "\<lambda>p x. json_str (str ''applications'') @ 58 #
                 json_list (map json_str (applications p)) @ 44 # ?t5 p x"
  let ?t3 = "\<lambda>p x. json_str (str ''methodologies'') @ 58 #
                 json_list (map json_str (methodologies p)) @ 44 # ?t4 p x"
  let ?t2 = "\<lambda>p x. json_str (str ''url'') @ 58 # json_str (url p) @ 44 # ?t3 p x"
  let ?t1 = "\<lambda>p x. json_str (str ''title'') @ 58 # json_str (title p) @ 44 # ?t2 p x"
  from assms(1) have v1: "valid_str (title p1)" "valid_str (url p1)"
    "list_all valid_str (methodologies p1)" "list_all valid_str (applications p1)"
    "valid_str (published p1)" "valid_str (summary p1)" by (simp_all add: wf_paper_def)
  from assms(2) have v2: "valid_str (title p2)" "valid_str (url p2)"
    "list_all valid_str (methodologies p2)" "list_all valid_str (applications p2)"
    "valid_str (published p2)" "valid_str (summary p2)" by (simp_all add: wf_paper_def)
  from assms(3) have "json_nat (pid p1) @ 44 # ?t1 p1 x = json_nat (pid p2) @ 44 # ?t1 p2 y"
    unfolding json_paper_flat by simp
  from json_nat_inj[OF this no_digit_comma no_digit_comma]
  have f0: "pid p1 = pid p2" and "?t1 p1 x = ?t1 p2 y" by simp_all
  then have "json_str (title p1) @ 44 # ?t2 p1 x = json_str (title p2) @ 44 # ?t2 p2 y" by simp
  from json_str_inj[OF v1(1) v2(1) this]
  have f1: "title p1 = title p2" and "?t2 p1 x = ?t2 p2 y" by simp_all
  then have "json_str (url p1) @ 44 # ?t3 p1 x = json_str (url p2) @ 44 # ?t3 p2 y" by simp
  from json_str_inj[OF v1(2) v2(2) this]
  have f2: "url p1 = url p2" and "?t3 p1 x = ?t3 p2 y" by simp_all
  then have "json_list (map json_str (methodologies p1)) @ 44 # ?t4 p1 x =
             json_list (map json_str (methodologies p2)) @ 44 # ?t4 p2 y" by simp
  from json_strs_inj[OF v1(3) v2(3) this]
  have f3: "methodologies p1 = methodologies p2" and "?t4 p1 x = ?t4 p2 y" by simp_all
  then have "json_list (map json_str (applications p1)) @ 44 # ?t5 p1 x =
             json_list (map json_str (applications p2)) @ 44 # ?t5 p2 y" by simp
  from json_strs_inj[OF v1(4) v2(4) this]
  have f4: "applications p1 = applications p2" and "?t5 p1 x = ?t5 p2 y" by simp_all
  then have "json_str (published p1) @ 44 # ?t6 p1 x = json_str (published p2) @ 44 # ?t6 p2 y"
    by simp
  from json_str_inj[OF v1(5) v2(5) this]
  have f5: "published p1 = published p2" and "?t6 p1 x = ?t6 p2 y" by simp_all
  then have "json_str (summary p1) @ 44 # ?t7 p1 x = json_str (summary p2) @ 44 # ?t7 p2 y"
    by simp
  from json_str_inj[OF v1(6) v2(6) this]
  have f6: "summary p1 = summary p2" and "?t7 p1 x = ?t7 p2 y" by simp_all
  then have "json_bool (is_review p1) @ 125 # x = json_bool (is_review p2) @ 125 # y" by simp
  from json_bool_inj[OF this] have f7: "is_review p1 = is_review p2" and xy: "x = y" by simp_all
  have "p1 = p2" using f0 f1 f2 f3 f4 f5 f6 f7 by (intro tagged_paper.equality) simp_all
  with xy show ?thesis by simp
qed

lemma json_papers_inj:
  assumes "list_all wf_paper ps1" "list_all wf_paper ps2"
    and "json_list (map json_paper ps1) @ x = json_list (map json_paper ps2) @ y"
  shows "ps1 = ps2 \<and> x = y"
proof (rule joined_inj[where A = "{p. wf_paper p}" and enc = json_paper and close = 93])
  fix a b u v
  assume "a \<in> {p. wf_paper p}" "b \<in> {p. wf_paper p}" "json_paper a @ u = json_paper b @ v"
  then show "a = b \<and> u = v" using json_paper_inj[of a b u v] by simp
next
  fix a u z
  show "json_paper a @ u \<noteq> 93 # z" unfolding json_paper_flat by simp
next
  show "(93::nat) \<noteq> 44" by simp
  show "set ps1 \<subseteq> {p. wf_paper p}" using assms(1) by (auto simp: list_all_iff)
  show "set ps2 \<subseteq> {p. wf_paper p}" using assms(2) by (auto simp: list_all_iff)
  show "join [44] (map json_paper ps1) @ 93 # x = join [44] (map json_paper ps2) @ 93 # y"
    using assms(3) by (simp add: json_list_def)
qed

lemma json_dumps_flat:
  "json_dumps d =
     123 # json_str (str ''papers'') @ 58 # json_list (map json_paper (d_papers d)) @
     44 # json_str (str ''applications'') @ 58 # json_list (map json_str (d_applications d)) @
     44 # json_str (str ''methodologies'') @ 58 # json_list (map json_str (d_methodologies d)) @
     44 # json_str (str ''matrix'') @ 58 #
       ([123] @ join [44] (map json_matrix_item (d_matrix d)) @ [125] @
        44 # json_str (str ''lastUpdated'') @ 58 # json_str (d_lastUpdated d) @ [125])"
  unfolding json_dumps_def json_matrix_items by (simp add: json_dict_def)

lemma json_dumps_inj:
  assumes "wf_dataset d1" "wf_dataset d2" "json_dumps d1 = json_dumps d2"
  shows "d1 = d2"
proof -
  let ?t4 = "\<lambda>d. 44 # json_str (str ''lastUpdated'') @ 58 # json_str (d_lastUpdated d) @ [125]"
  let ?t3 = "\<lambda>d. json_str (str ''matrix'') @ 58 #
       ([123] @ join [44] (map json_matrix_item (d_matrix d)) @ [125] @ ?t4 d)"
  let ?t2 = "\<lambda>d. json_str (str ''methodologies'') @ 58 #
       json_list (map json_str (d_methodologies d)) @ 44 # ?t3 d"
  let ?t1 = "\<lambda>d. json_str (str ''applications'') @ 58 #
       json_list (map json_str (d_applications d)) @ 44 # ?t2 d"
  from assms(1) have v1: "list_all wf_paper (d_papers d1)" "list_all valid_str (d_applications d1)"
    "list_all valid_str (d_methodologies d1)" "list_all valid_str (map fst (d_matrix d1))"
    "list_all wf_row (map snd (d_matrix d1))" "valid_str (d_lastUpdated d1)"
    by (simp_all add: wf_dataset_def)
  from assms(2) have v2: "list_all wf_paper (d_papers d2)" "list_all valid_str (d_applications d2)"
    "list_all valid_str (d_methodologies d2)" "list_all valid_str (map fst (d_matrix d2))"
    "list_all wf_row (map snd (d_matrix d2))" "valid_str (d_lastUpdated d2)"
    by (simp_all add: wf_dataset_def)
  from assms(3) have "json_list (map json_paper (d_papers d1)) @ 44 # ?t1 d1 =
                      json_list (map json_paper (d_papers d2)) @ 44 # ?t1 d2"
    unfolding json_dumps_flat by simp
  from json_papers_inj[OF v1(1) v2(1) this]
  have f0: "d_papers d1 = d_papers d2" and "?t1 d1 = ?t1 d2" by simp_all
  then have "json_list (map json_str (d_applications d1)) @ 44 # ?t2 d1 =
             json_list (map json_str (d_applications d2)) @ 44 # ?t2 d2" by simp
  from json_strs_inj[OF v1(2) v2(2) this]
  have f1: "d_applications d1 = d_applications d2" and "?t2 d1 = ?t2 d2" by simp_all
  then have "json_list (map json_str (d_methodologies d1)) @ 44 # ?t3 d1 =
             json_list (map json_str (d_methodologies d2)) @ 44 # ?t3 d2" by simp
  from json_strs_inj[OF v1(3) v2(3) this]
  have f2: "d_methodologies d1 = d_methodologies d2" and "?t3 d1 = ?t3 d2" by simp_all
  then have "[123] @ join [44] (map json_matrix_item (d_matrix d1)) @ [125] @ ?t4 d1 =
             [123] @ join [44] (map json_matrix_item (d_matrix d2)) @ [125] @ ?t4 d2" by simp
  from json_matrix_inj[OF v1(4,5) v2(4,5) this]
  have f3: "d_matrix d1 = d_matrix d2" and "?t4 d1 = ?t4 d2" by simp_all
  then have "json_str (d_lastUpdated d1) @ [125] = json_str (d_lastUpdated d2) @ [125]" by simp
  from json_str_inj[OF v1(6) v2(6) this]
  have f4: "d_lastUpdated d1 = d_lastUpdated d2" by simp
  show ?thesis using f0 f1 f2 f3 f4 by (intro dataset.equality) simp_all
qed

section \<open>Where the characters of the dataset come from\<close>

lemma lit_set: "lit p s = Some r \<Longrightarrow> set r \<subseteq> set s"
  by (induction p s rule: lit.induct) (auto split: if_splits)

lemma split_on_set: "x \<in> set (split_on d ds acc s) \<Longrightarrow> set x \<subseteq> set acc \<union> set s"
proof (induction d ds acc s rule: split_on.induct)
  case (1 d ds acc)
  then show ?case by simp
next
  case (2 d ds acc c cs)
  show ?case
  proof (cases "lit (d # ds) (c # cs)")
    case None
    with 2 show ?thesis by auto
  next
    case (Some r)
    from lit_set[OF Some] have r: "set r \<subseteq> set (c # cs)" .
    from 2(3) Some have "x = acc \<or> x \<in> set (split_on d ds [] r)" by simp
    then show ?thesis
    proof
      assume "x = acc"
      then show ?thesis by auto
    next
      assume "x \<in> set (split_on d ds [] r)"
      from 2(2)[OF Some this] r show ?thesis by auto
    qed
  qed
qed

lemma strip_set: "set (strip s) \<subseteq> set s"
proof -
  have "set (strip s) \<subseteq> set (dropWhile isspace s)"
    unfolding strip_def rstrip_def lstrip_def
    using set_dropWhileD[of _ isspace "rev (dropWhile isspace s)"] by auto
  also have "\<dots> \<subseteq> set s" using set_dropWhileD[of _ isspace s] by auto
  finally show ?thesis .
qed

lemma dot_plus_lazy_set:
  "dot_plus_lazy k acc s = Some r \<Longrightarrow>
   \<exists>a rest. k (acc @ a) rest = Some r \<and> set a \<subseteq> set s \<and> set rest \<subseteq> set s"
proof (induction s arbitrary: acc)
  case Nil
  then show ?case by simp
next
  case (Cons c cs)
  show ?case
  proof (cases "k (acc @ [c]) cs")
    case None
    with Cons.prems have "dot_plus_lazy k (acc @ [c]) cs = Some r"
      by (simp split: if_splits)
    from Cons.IH[OF this] obtain a rest where
      "k ((acc @ [c]) @ a) rest = Some r" "set a \<subseteq> set cs" "set rest \<subseteq> set cs" by blast
    then have "k (acc @ (c # a)) rest = Some r \<and> set (c # a) \<subseteq> set (c # cs) \<and>
               set rest \<subseteq> set (c # cs)" by auto
    then show ?thesis by blast
  next
    case (Some r')
    with Cons.prems have "r' = r" by (simp split: if_splits)
    with Some have "k (acc @ [c]) cs = Some r \<and> set [c] \<subseteq> set (c # cs) \<and> set cs \<subseteq> set (c # cs)"
      by auto
    then show ?thesis by blast
  qed
qed

lemma dot_plus_lazy_Nil_set:
  assumes "dot_plus_lazy k [] s = Some r"
  shows "\<exists>a rest. k a rest = Some r \<and> set a \<subseteq> set s \<and> set rest \<subseteq> set s"
  using dot_plus_lazy_set[OF assms] by simp

lemma title_match_set:
  assumes "title_match line = Some (t, u)"
  shows "set t \<subseteq> set line \<and> set u \<subseteq> set line"
proof -
  from assms obtain r1 where r1: "lit (str ''- **['') line = Some r1"
    by (auto simp: title_match_def split: option.splits)
  let ?k2 = "\<lambda>t (u::pystr) r4. case lit (str '')**'') r4 of
                        None \<Rightarrow> None
                      | Some r5 \<Rightarrow> Some (t, u)"
  let ?k1 = "\<lambda>(t::pystr) r2. case lit (str '']('') r2 of
                None \<Rightarrow> None
              | Some r3 \<Rightarrow> dot_plus_lazy (?k2 t) [] r3"
  from assms r1 have "dot_plus_lazy ?k1 [] r1 = Some (t, u)"
    by (simp add: title_match_def)
  from dot_plus_lazy_Nil_set[OF this] obtain a rest where
    a: "?k1 a rest = Some (t, u)" "set a \<subseteq> set r1" "set rest \<subseteq> set r1" by blast
  then obtain r3 where r3: "lit (str '']('') rest = Some r3"
    and "dot_plus_lazy (?k2 a) [] r3 = Some (t, u)"
    by (auto split: option.splits)
  from dot_plus_lazy_Nil_set[OF this(2)] obtain b rest' where
    b: "?k2 a b rest' = Some (t, u)" "set b \<subseteq> set r3" by blast
  then have tu: "t = a" "u = b" by (auto split: option.splits)
  from lit_set[OF r1] lit_set[OF r3] a(2,3) b(2) show ?thesis unfolding tu by blast
qed

lemma space_star_set:
  "space_star k s = Some r \<Longrightarrow> \<exists>s'. k s' = Some r \<and> set s' \<subseteq> set s"
proof (induction s)
  case Nil
  then show ?case by auto
next
  case (Cons c cs)
  show ?case
  proof (cases "isspace c \<and> space_star k cs \<noteq> None")
    case True
    with Cons.prems have "space_star k cs = Some r" by auto
    from Cons.IH[OF this] show ?thesis by auto
  next
    case False
    with Cons.prems have "k (c # cs) = Some r" by (auto split: if_splits option.splits)
    then show ?thesis by blast
  qed
qed

lemma dot_plus_set: "dot_plus s = Some g \<Longrightarrow> set g \<subseteq> set s"
  by (auto simp: dot_plus_def Let_def split: if_splits dest: set_takeWhileD)

lemma meta_match_set:
  assumes "meta_match key line = Some g"
  shows "set g \<subseteq> set line"
proof -
  let ?k = "\<lambda>r. case lit key r of None \<Rightarrow> None | Some r' \<Rightarrow> space_star dot_plus r'"
  from assms have "space_star ?k line = Some g" by (simp add: meta_match_def)
  from space_star_set[OF this] obtain s1 where s1: "?k s1 = Some g" "set s1 \<subseteq> set line" by blast
  then obtain r' where r': "lit key s1 = Some r'" "space_star dot_plus r' = Some g"
    by (auto split: option.splits)
  from space_star_set[OF r'(2)] obtain s2 where s2: "dot_plus s2 = Some g" "set s2 \<subseteq> set r'"
    by blast
  from dot_plus_set[OF s2(1)] s2(2) lit_set[OF r'(1)] s1(2) show ?thesis by blast
qed

lemma apply_meta_in:
  assumes "entry_in S e" "set l \<subseteq> S"
  shows "entry_in S (apply_meta e l)"
proof -
  have g: "set g \<subseteq> S" if "meta_match key l = Some g" for key g
    using meta_match_set[OF that] assms(2) by blast
  have sg: "set (strip g) \<subseteq> S" if "meta_match key l = Some g" for key g
    using g[OF that] strip_set[of g] by blast
  have ms: "\<forall>m\<in>set (map strip (split_commas g)). set m \<subseteq> S" if "meta_match key l = Some g" for key g
  proof
    fix m assume "m \<in> set (map strip (split_commas g))"
    then obtain x where x: "x \<in> set (split_commas g)" "m = strip x" by auto
    from split_on_set[of x 44 "[]" "[]" g] x(1) have "set x \<subseteq> set g" by (simp add: split_commas_def)
    with strip_set[of x] g[OF that] x(2) show "set m \<subseteq> S" by blast
  qed
  show ?thesis
    using assms(1) ms sg
    by (auto simp: apply_meta_def entry_in_def meth_match_def pub_match_def sum_match_def
          split: option.splits)
qed

lemma foldl_apply_meta_in:
  "entry_in S e \<Longrightarrow> \<forall>l\<in>set ls. set l \<subseteq> S \<Longrightarrow> entry_in S (foldl apply_meta e ls)"
  by (induction ls arbitrary: e) (simp_all add: apply_meta_in)

lemma section_entries_in:
  assumes "set c \<subseteq> S" "\<forall>l\<in>set ls. set l \<subseteq> S"
  shows "\<forall>e\<in>set (section_entries c ls). entry_in S e"
  using assms(2)
proof (induction ls)
  case Nil
  then show ?case by simp
next
  case (Cons l ls)
  then have IH: "\<forall>e\<in>set (section_entries c ls). entry_in S e" and l: "set l \<subseteq> S"
    and ls: "\<forall>l\<in>set ls. set l \<subseteq> S" by simp_all
  show ?case
  proof (cases "title_match l")
    case None
    with IH show ?thesis by simp
  next
    case (Some tu)
    obtain t u where tu: "tu = (t, u)" by (cases tu)
    from title_match_set[of l t u] Some tu l have "set t \<subseteq> S" "set u \<subseteq> S" by auto
    with assms(1) have "entry_in S \<lparr>e_category = c, e_title = t, e_url = u, e_methodologies = [],
             e_published = [], e_summary = []\<rparr>" by (simp add: entry_in_def)
    moreover have "\<forall>x\<in>set (takeWhile no_title ls). set x \<subseteq> S"
      using ls by (auto dest: set_takeWhileD)
    ultimately have "entry_in S (foldl apply_meta \<lparr>e_category = c, e_title = t, e_url = u,
             e_methodologies = [], e_published = [], e_summary = []\<rparr> (takeWhile no_title ls))"
      by (rule foldl_apply_meta_in)
    with IH Some tu show ?thesis by simp
  qed
qed

lemma doc_entries_in:
  assumes "e \<in> set (doc_entries content)"
  shows "entry_in (set content) e"
proof -
  from assms obtain sec where sec: "sec \<in> set (tl (split_sections content))"
    "e \<in> set (section_entries_of sec)" by (auto simp: doc_entries_def)
  from sec(1) have "sec \<in> set (split_sections content)" by (rule list.set_sel(2)[rotated]) (simp add: split_sections_def split_on_nonempty)
  from split_on_set[OF this[unfolded split_sections_def]] have s: "set sec \<subseteq> set content" by simp
  obtain l0 ls where l0: "split_lines (strip sec) = l0 # ls"
    using split_on_nonempty[of NL "[]" "[]" "strip sec"]
    by (cases "split_lines (strip sec)") (simp_all add: split_lines_def)
  with sec(2) have l: "split_lines (strip sec) = l0 # ls"
    "e \<in> set (section_entries (strip l0) ls)"
    by (simp_all add: section_entries_of_def split: if_splits)
  have lines: "set x \<subseteq> set content" if "x \<in> set (l0 # ls)" for x
  proof -
    from that l(1) have "x \<in> set (split_on NL [] [] (strip sec))" by (simp add: split_lines_def)
    from split_on_set[OF this] strip_set[of sec] s show ?thesis by auto
  qed
  have "set (strip l0) \<subseteq> set content" using lines[of l0] strip_set[of l0] by auto
  moreover have "\<forall>x\<in>set ls. set x \<subseteq> set content" using lines by simp
  ultimately show ?thesis using section_entries_in[of "strip l0" "set content" ls] l(2) by blast
qed

lemma valid_str_set: "valid_str s \<longleftrightarrow> set s \<subseteq> {c. valid_char c}"
  by (auto simp: valid_str_def list_all_iff)

lemma entry_in_mono: "entry_in S e \<Longrightarrow> S \<subseteq> T \<Longrightarrow> entry_in T e"
  unfolding entry_in_def by blast

lemma raw_papers_in:
  assumes "\<forall>e\<in>set es. entry_in S e" "p \<in> set (foldl merge_entry [] es)"
  shows "set (title p) \<subseteq> S \<and> set (url p) \<subseteq> S \<and> (\<forall>m\<in>set (methodologies p). set m \<subseteq> S) \<and>
         (\<forall>a\<in>set (applications p). set a \<subseteq> S) \<and> set (published p) \<subseteq> S \<and>
         set (summary p) \<subseteq> S"
proof -
  have c: "collected es (foldl merge_entry [] es)" by (rule collected_foldl)
  with assms(2) obtain e where ap: "applications p = categories_of (url p) es"
    and e: "first_entry (url p) es = Some e" "title p = e_title e"
      "methodologies p = e_methodologies e" "published p = e_published e"
      "summary p = e_summary e"
    unfolding collected_def by blast
  from first_entry_Some[OF e(1)] have m: "e \<in> set es" "e_url e = url p" by simp_all
  with assms(1) have ein: "entry_in S e" by blast
  have "set a \<subseteq> S" if "a \<in> set (applications p)" for a
  proof -
    from that obtain e' where "e' \<in> set es" "e_category e' = a"
      unfolding ap in_categories_of by blast
    with assms(1) show ?thesis by (auto simp: entry_in_def)
  qed
  with ein e(2-) m(2) show ?thesis by (auto simp: entry_in_def)
qed

lemma clean_in:
  assumes "\<forall>m\<in>set ms. set m \<subseteq> S" "set (str ''Machine learning'') \<subseteq> S"
  shows "\<forall>m\<in>set (clean ms). set m \<subseteq> S"
  unfolding clean_renamed set_renamed using assms
  by (auto simp: rename_tag_def split: if_splits)

lemma valid_constant: "set (str ''Machine learning'') \<subseteq> {c. valid_char c}"
  by (simp add: str_def valid_char_def)

lemma in_concat_map: "a \<in> set (concat (map f xs)) \<Longrightarrow> \<exists>x\<in>set xs. a \<in> set (f x)"
  by auto

lemma in_filter_concat_map:
  "a \<in> set (filter P (concat (map f xs))) \<Longrightarrow> \<exists>x\<in>set xs. a \<in> set (f x)"
  by auto

lemma parse_result_wf:
  assumes "valid_order enum" "valid_str content" "valid_str today"
  shows "\<exists>d. parse_readme enum today content = Inr d \<and> wf_dataset d"
proof -
  let ?V = "{c. valid_char c}"
  let ?es = "doc_entries content"
  let ?R = "foldl merge_entry [] ?es"
  let ?ps = "map tag_review (map (normalize_paper enum) ?R)"
  let ?d = "aggregate enum today ?ps"
  from assms(1) have sets: "\<And>xs. set (enum xs) = set xs" and dist: "\<And>xs. distinct (enum xs)"
    by (simp_all add: valid_order_def)
  from assms(2) have cv: "set content \<subseteq> ?V" by (simp add: valid_str_set)
  have es: "\<forall>e\<in>set ?es. entry_in ?V e"
  proof
    fix e assume "e \<in> set ?es"
    from doc_entries_in[OF this] cv show "entry_in ?V e" by (rule entry_in_mono)
  qed
  have papers: "wf_paper p" if "p \<in> set ?ps" for p
  proof -
    from that obtain q where q: "q \<in> set ?R" "p = tag_review (normalize_paper enum q)" by auto
    note r = raw_papers_in[OF es q(1)]
    from r have "\<forall>m\<in>set (methodologies q). set m \<subseteq> ?V" by blast
    from clean_in[OF this valid_constant]
    have "\<forall>m\<in>set (enum (clean (methodologies q))). set m \<subseteq> ?V" by (simp only: sets)
    with r show ?thesis
      unfolding wf_paper_def q(2) tagged_fields valid_str_set list_all_iff by auto
  qed
  have apps: "set a \<subseteq> ?V" if "a \<in> set (d_applications ?d)" for a
  proof -
    from that have "a \<in> set (concat (map applications ?ps))"
      by (simp add: aggregate_def Let_def sets del: set_concat)
    from in_concat_map[OF this] obtain p where "p \<in> set ?ps" "a \<in> set (applications p)"
      by blast
    with papers[of p] show ?thesis by (auto simp: wf_paper_def list_all_iff valid_str_set)
  qed
  have meths: "set m \<subseteq> ?V" if "m \<in> set (d_methodologies ?d)" for m
  proof -
    from that have "m \<in> set (filter (\<lambda>m. m \<noteq> []) (concat (map methodologies ?ps)))"
      by (simp add: aggregate_def Let_def sets del: set_concat set_filter)
    from in_filter_concat_map[OF this] obtain p where "p \<in> set ?ps" "m \<in> set (methodologies p)"
      by blast
    with papers[of p] show ?thesis by (auto simp: wf_paper_def list_all_iff valid_str_set)
  qed
  have da: "distinct (d_applications ?d)" and dm: "distinct (d_methodologies ?d)"
    by (simp_all add: aggregate_def Let_def dist)
  have mx: "d_matrix ?d = map (\<lambda>app. (app, map (\<lambda>meth. (meth, count_papers ?ps app meth))
              (d_methodologies ?d))) (d_applications ?d)"
  proof -
    have "d_matrix ?d = build_matrix ?ps (d_applications ?d) (d_methodologies ?d)"
      by (simp add: aggregate_def Let_def)
    then show ?thesis by (simp only: build_matrix_eq[OF da] matrix_row_eq[OF dm])
  qed
  have keys: "map fst (d_matrix ?d) = d_applications ?d"
    unfolding mx by (simp add: comp_def)
  have rows: "\<forall>row\<in>set (map snd (d_matrix ?d)). map fst row = d_methodologies ?d"
    unfolding mx by (simp add: comp_def)
  have "list_all wf_paper (d_papers ?d)" using papers by (simp add: list_all_iff)
  moreover have "list_all valid_str (d_applications ?d)"
    using apps by (simp add: list_all_iff valid_str_set)
  moreover have m: "list_all valid_str (d_methodologies ?d)"
    using meths by (simp add: list_all_iff valid_str_set)
  moreover have "list_all valid_str (map fst (d_matrix ?d))"
    unfolding keys using apps by (simp add: list_all_iff valid_str_set)
  moreover have "list_all wf_row (map snd (d_matrix ?d))"
  proof -
    have "wf_row row" if "row \<in> set (map snd (d_matrix ?d))" for row
    proof -
      from rows that have "map fst row = d_methodologies ?d" by blast
      with m show ?thesis by (simp only: wf_row_def)
    qed
    then show ?thesis unfolding list_all_iff by blast
  qed
  moreover have "valid_str (d_lastUpdated ?d)" using assms(3) by (simp add: aggregate_def Let_def)
  ultimately have "wf_dataset ?d" unfolding wf_dataset_def by blast
  moreover have "parse_readme enum today content = Inr ?d" by (rule parse_readme_eq)
  ultimately show ?thesis by blast
qed

section \<open>The whitespace of the serialised text\<close>

lemma spaces_from_append [simp]:
  "spaces_from S (a @ b) \<longleftrightarrow> spaces_from S a \<and> spaces_from S b"
  by (auto simp: spaces_from_def)

lemma spaces_from_Cons [simp]:
  "spaces_from S (c # x) \<longleftrightarrow> (isspace c \<longrightarrow> c = 32 \<and> c \<in> S) \<and> spaces_from S x"
  by (auto simp: spaces_from_def)

lemma spaces_from_Nil [simp]: "spaces_from S []"
  by (simp add: spaces_from_def)

lemma spaces_from_mono: "spaces_from A x \<Longrightarrow> A \<subseteq> B \<Longrightarrow> spaces_from B x"
  by (auto simp: spaces_from_def)

lemma isspace_hex_digit: "n < 16 \<Longrightarrow> \<not> isspace (hex_digit n)"
  by (simp add: hex_digit_def isspace_def)

lemma spaces_from_hex4: "spaces_from S (hex4 n)"
  by (simp add: hex4_def isspace_hex_digit)

lemma spaces_from_json_char: "spaces_from {c} (json_char c)"
proof (cases "32 \<le> c \<and> c \<le> 126")
  case True
  then show ?thesis by (auto simp: json_char_def isspace_def)
next
  case False
  then show ?thesis by (simp add: json_char_def isspace_def spaces_from_hex4)
qed

lemma spaces_from_json_str: "spaces_from (set s) (json_str s)"
proof -
  have "spaces_from (set s) (concat (map json_char s))"
  proof (induction s)
    case Nil
    show ?case by simp
  next
    case (Cons c s)
    have "spaces_from (set (c # s)) (json_char c)"
      by (rule spaces_from_mono[OF spaces_from_json_char]) simp
    moreover have "spaces_from (set (c # s)) (concat (map json_char s))"
      by (rule spaces_from_mono[OF Cons]) auto
    ultimately show ?case by simp
  qed
  then show ?thesis by (simp add: json_str_def isspace_def)
qed

lemma spaces_from_key: "\<forall>c\<in>set k. \<not> isspace c \<Longrightarrow> spaces_from S (json_str k)"
  using spaces_from_json_str[of k] by (auto simp: spaces_from_def)

lemma spaces_from_json_nat: "spaces_from S (json_nat n)"
  using json_nat_digits[of n] by (auto simp: spaces_from_def list_all_iff is_digit_def isspace_def)

lemma spaces_from_json_bool: "spaces_from S (json_bool b)"
  by (simp add: json_bool_def str_def isspace_def)

lemma spaces_from_join:
  "\<forall>i\<in>set items. spaces_from S i \<Longrightarrow> spaces_from S (join [44] items)"
  by (induction "[44::nat]" items rule: join.induct) (simp_all add: isspace_def)

lemma spaces_from_strs:
  assumes "\<forall>s\<in>set xs. set s \<subseteq> S"
  shows "spaces_from S (json_list (map json_str xs))"
proof -
  have "\<forall>i\<in>set (map json_str xs). spaces_from S i"
    using assms spaces_from_mono[OF spaces_from_json_str] by auto
  from spaces_from_join[OF this] show ?thesis by (simp add: json_list_def isspace_def)
qed

lemma spaces_from_paper: "spaces_from (paper_chars p) (json_paper p)"
proof -
  let ?S = "paper_chars p"
  have k: "spaces_from ?S (json_str (str ''id''))" "spaces_from ?S (json_str (str ''title''))"
    "spaces_from ?S (json_str (str ''url''))" "spaces_from ?S (json_str (str ''methodologies''))"
    "spaces_from ?S (json_str (str ''applications''))" "spaces_from ?S (json_str (str ''published''))"
    "spaces_from ?S (json_str (str ''summary''))" "spaces_from ?S (json_str (str ''is_review''))"
    by (rule spaces_from_key, simp add: str_def isspace_def)+
  have s1: "spaces_from ?S (json_str (title p))"
    by (rule spaces_from_mono[OF spaces_from_json_str]) (auto simp: paper_chars_def)
  have s2: "spaces_from ?S (json_str (url p))"
    by (rule spaces_from_mono[OF spaces_from_json_str]) (auto simp: paper_chars_def)
  have s3: "spaces_from ?S (json_str (published p))"
    by (rule spaces_from_mono[OF spaces_from_json_str]) (auto simp: paper_chars_def)
  have s4: "spaces_from ?S (json_str (summary p))"
    by (rule spaces_from_mono[OF spaces_from_json_str]) (auto simp: paper_chars_def)
  have l1: "spaces_from ?S (json_list (map json_str (methodologies p)))"
    by (rule spaces_from_strs) (auto simp: paper_chars_def)
  have l2: "spaces_from ?S (json_list (map json_str (applications p)))"
    by (rule spaces_from_strs) (auto simp: paper_chars_def)
  have "spaces_from ?S (json_paper p @ [])"
    unfolding json_paper_flat
    by (simp add: s1 s2 s3 s4 l1 l2 spaces_from_json_nat spaces_from_json_bool k isspace_def)
  then show ?thesis by simp
qed

lemma spaces_from_row:
  "spaces_from (\<Union>cell\<in>set row. set (fst cell)) (json_row row)"
proof -
  have "\<forall>i\<in>set (map json_cell row). spaces_from (\<Union>cell\<in>set row. set (fst cell)) i"
  proof
    fix i assume "i \<in> set (map json_cell row)"
    then obtain cell where c: "cell \<in> set row" "i = json_cell cell" by auto
    have "spaces_from (\<Union>cell\<in>set row. set (fst cell)) (json_str (fst cell))"
      by (rule spaces_from_mono[OF spaces_from_json_str]) (use c(1) in auto)
    then show "spaces_from (\<Union>cell\<in>set row. set (fst cell)) i"
      by (simp add: c(2) json_cell_def spaces_from_json_nat isspace_def)
  qed
  from spaces_from_join[OF this] show ?thesis by (simp add: json_row_cells isspace_def)
qed

lemma spaces_from_dumps: "spaces_from (dataset_chars d) (json_dumps d)"
proof -
  let ?S = "dataset_chars d"
  have k: "spaces_from ?S (json_str (str ''papers''))"
    "spaces_from ?S (json_str (str ''applications''))"
    "spaces_from ?S (json_str (str ''methodologies''))"
    "spaces_from ?S (json_str (str ''matrix''))" "spaces_from ?S (json_str (str ''lastUpdated''))"
    by (rule spaces_from_key, simp add: str_def isspace_def)+
  have ps: "spaces_from ?S (json_list (map json_paper (d_papers d)))"
  proof -
    have "\<forall>i\<in>set (map json_paper (d_papers d)). spaces_from ?S i"
    proof
      fix i assume "i \<in> set (map json_paper (d_papers d))"
      then obtain p where p: "p \<in> set (d_papers d)" "i = json_paper p" by auto
      have "paper_chars p \<subseteq> ?S" using p(1) by (auto simp: dataset_chars_def)
      from spaces_from_mono[OF spaces_from_paper this] show "spaces_from ?S i" by (simp add: p(2))
    qed
    from spaces_from_join[OF this] show ?thesis by (simp add: json_list_def isspace_def)
  qed
  have l1: "spaces_from ?S (json_list (map json_str (d_applications d)))"
    by (rule spaces_from_strs) (auto simp: dataset_chars_def)
  have l2: "spaces_from ?S (json_list (map json_str (d_methodologies d)))"
    by (rule spaces_from_strs) (auto simp: dataset_chars_def)
  have mx: "spaces_from ?S (join [44] (map json_matrix_item (d_matrix d)))"
  proof (rule spaces_from_join, rule ballI)
    fix i assume "i \<in> set (map json_matrix_item (d_matrix d))"
    then obtain kv where kv: "kv \<in> set (d_matrix d)" "i = json_matrix_item kv" by auto
    have "spaces_from ?S (json_str (fst kv))"
      by (rule spaces_from_mono[OF spaces_from_json_str]) (use kv(1) in \<open>auto simp: dataset_chars_def\<close>)
    moreover have "spaces_from ?S (json_row (snd kv))"
      by (rule spaces_from_mono[OF spaces_from_row]) (use kv(1) in \<open>auto simp: dataset_chars_def\<close>)
    ultimately show "spaces_from ?S i" by (simp add: kv(2) json_matrix_item_def isspace_def)
  qed
  have lu: "spaces_from ?S (json_str (d_lastUpdated d))"
    by (rule spaces_from_mono[OF spaces_from_json_str]) (simp add: dataset_chars_def)
  show ?thesis
    unfolding json_dumps_flat
    by (simp add: ps l1 l2 mx lu k isspace_def)
qed


lemma doc0_valid: "valid_str doc0" "valid_str date0"
  by (simp_all add: doc0_def date0_def text_of_def str_def valid_str_def valid_char_def)


end
